theory Spec2Isabelle
  imports Main "HOL-Library.Sublist" "HOL-Library.AList"
begin

section \<open>Strings, paths and the storage volume\<close>

text \<open>
  Text and binary content are byte strings: a \<^typ>\<open>char\<close> is one byte, and a Python
  \<^verbatim>\<open>str\<close> is read as its UTF-8 encoding. Every delimiter the code looks for
  (\<^verbatim>\<open>/ . ] ( ) !\<close>) is ASCII, and no byte of a multi-byte UTF-8 sequence is ASCII, so
  splitting and pattern matching see the same delimiters on bytes as on code points.
\<close>

type_synonym bytes = string

text \<open>\<^verbatim>\<open>s.split(d)\<close> for a one-character separator: never empty, \<^verbatim>\<open>"".split("/") == [""]\<close>.\<close>

fun split_on :: "char \<Rightarrow> string \<Rightarrow> string list" where
  "split_on d [] = [[]]"
| "split_on d (c # cs) =
     (case split_on d cs of
        [] \<Rightarrow> [[c]]
      | w # ws \<Rightarrow> if c = d then [] # w # ws else (c # w) # ws)"

text \<open>
  \<^verbatim>\<open>str.lower()\<close>, on the ASCII letters. The code lower-cases a string only to compare
  its end with \<^verbatim>\<open>.pdf\<close> or its extension with \<^verbatim>\<open>.png .jpg .jpeg .gif .webp\<close>; no
  character outside ASCII lower-cases to a letter of these, so the comparison is the same.
\<close>

definition lower_char :: "char \<Rightarrow> char" where
  "lower_char c =
     (case map_of (zip ''ABCDEFGHIJKLMNOPQRSTUVWXYZ'' ''abcdefghijklmnopqrstuvwxyz'') c of
        Some l \<Rightarrow> l
      | None \<Rightarrow> c)"

definition lower :: "string \<Rightarrow> string" where
  "lower s = map lower_char s"

text \<open>\<^verbatim>\<open>s.endswith(e)\<close>.\<close>

definition endswith :: "string \<Rightarrow> string \<Rightarrow> bool" where
  "endswith s e = (length e \<le> length s \<and> drop (length s - length e) s = e)"

text \<open>
  A \<^verbatim>\<open>pathlib.Path\<close> on POSIX, as the list of its parts. \<^verbatim>\<open>STORAGE_DIR\<close> is built from
  the module's own location and is absolute, so every path of the storage layer is
  absolute and the leading \<^verbatim>\<open>/\<close> is left implicit. Parsing a string drops empty
  segments and \<^verbatim>\<open>.\<close> segments and keeps \<^verbatim>\<open>..\<close> segments. (A string that begins with
  exactly two slashes, whose root \<^verbatim>\<open>pathlib\<close> keeps apart, is read like any other absolute
  path.)
\<close>

type_synonym path = "string list"

definition path_parts :: "string \<Rightarrow> path" where
  "path_parts s = filter (\<lambda>w. w \<noteq> [] \<and> w \<noteq> ''.'') (split_on CHR ''/'' s)"

text \<open>
  The \<^verbatim>\<open>/\<close> operator of \<^verbatim>\<open>pathlib\<close>: an absolute right operand replaces the left one.
\<close>

definition truediv :: "path \<Rightarrow> string \<Rightarrow> path" where
  "truediv p s =
     (if s \<noteq> [] \<and> hd s = CHR ''/'' then path_parts s else p @ path_parts s)"

text \<open>\<^verbatim>\<open>Path.name\<close> and \<^verbatim>\<open>Path.suffix\<close> (the rule of Python up to 3.13: the last dot of the
  name counts when it is neither the first nor the last character).\<close>

definition path_name :: "path \<Rightarrow> string" where
  "path_name p = (if p = [] then [] else last p)"

definition name_suffix :: "string \<Rightarrow> string" where
  "name_suffix n =
     (let ext = rev (takeWhile (\<lambda>c. c \<noteq> CHR ''.'') (rev n))
      in if CHR ''.'' \<in> set n \<and> ext \<noteq> [] \<and> Suc (length ext) < length n
         then CHR ''.'' # ext else [])"

definition path_suffix :: "path \<Rightarrow> string" where
  "path_suffix p = name_suffix (path_name p)"

text \<open>
  The storage volume: a table from canonical locations (parts without \<^verbatim>\<open>..\<close>, no symbolic
  links) to what is stored there, looked up with \<^const>\<open>map_of\<close>. The location \<open>[]\<close> is the
  root directory.
\<close>

datatype node = Dir | File bytes

type_synonym fs = "(path \<times> node) list"

text \<open>
  Name resolution as \<^verbatim>\<open>stat\<close> does it: each part is looked up in the directory reached so
  far, \<^verbatim>\<open>..\<close> goes to the parent (the root is its own parent), and a part below something
  that is not a directory does not resolve.
\<close>

fun walk :: "(path \<Rightarrow> node option) \<Rightarrow> path \<Rightarrow> path \<Rightarrow> path option" where
  "walk f cur [] = Some cur"
| "walk f cur (s # ss) =
     (if f cur = Some Dir then
        (let nxt = (if s = ''..'' then butlast cur else cur @ [s])
         in if f nxt = None then None else walk f nxt ss)
      else None)"

definition realpath :: "fs \<Rightarrow> path \<Rightarrow> path option" where
  "realpath f p = walk (map_of f) [] p"

text \<open>\<^verbatim>\<open>Path.exists()\<close>, \<^verbatim>\<open>Path.is_file()\<close> and \<^verbatim>\<open>Path.read_text()\<close>.\<close>

definition exists :: "fs \<Rightarrow> path \<Rightarrow> bool" where
  "exists f p = (realpath f p \<noteq> None)"

definition is_file :: "fs \<Rightarrow> path \<Rightarrow> bool" where
  "is_file f p = (case realpath f p of
                    None \<Rightarrow> False
                  | Some q \<Rightarrow> (case map_of f q of Some (File _) \<Rightarrow> True | _ \<Rightarrow> False))"

definition read_text :: "fs \<Rightarrow> path \<Rightarrow> bytes option" where
  "read_text f p = (case realpath f p of
                      None \<Rightarrow> None
                    | Some q \<Rightarrow> (case map_of f q of Some (File c) \<Rightarrow> Some c | _ \<Rightarrow> None))"

text \<open>
  \<^verbatim>\<open>Path.mkdir(parents=True, exist_ok=True)\<close>: every missing directory on the way is
  created; a file on the way is an error (\<open>None\<close>).
\<close>

fun mkdirs :: "fs \<Rightarrow> path \<Rightarrow> path \<Rightarrow> fs option" where
  "mkdirs f cur [] = Some f"
| "mkdirs f cur (s # ss) =
     (if map_of f cur = Some Dir then
        (let nxt = (if s = ''..'' then butlast cur else cur @ [s])
         in case map_of f nxt of
              None \<Rightarrow> mkdirs (AList.update nxt Dir f) nxt ss
            | Some Dir \<Rightarrow> mkdirs f nxt ss
            | Some (File _) \<Rightarrow> None)
      else None)"

definition mkdir_parents :: "fs \<Rightarrow> path \<Rightarrow> fs option" where
  "mkdir_parents f p = mkdirs f [] p"

text \<open>
  \<^verbatim>\<open>Path.write_text\<close> and \<^verbatim>\<open>Path.write_bytes\<close>: the parent must resolve to a directory
  and the target must not be a directory; the file is created or overwritten.
\<close>

definition write_text :: "fs \<Rightarrow> path \<Rightarrow> bytes \<Rightarrow> fs option" where
  "write_text f p content =
     (if p = [] \<or> last p = ''..'' then None
      else case realpath f (butlast p) of
             None \<Rightarrow> None
           | Some d \<Rightarrow>
               if map_of f d \<noteq> Some Dir then None
               else (case map_of f (d @ [last p]) of
                       Some Dir \<Rightarrow> None
                     | _ \<Rightarrow> Some (AList.update (d @ [last p]) (File content) f)))"

text \<open>\<^verbatim>\<open>Path.iterdir()\<close>: the names of the entries directly inside a resolved directory.\<close>

definition iterdir :: "fs \<Rightarrow> path \<Rightarrow> string list" where
  "iterdir f d = remdups (map (\<lambda>(p, n). last p) (filter (\<lambda>(p, n). p \<noteq> [] \<and> butlast p = d) f))"

text \<open>\<^verbatim>\<open>str(path)\<close> of an absolute path.\<close>

definition path_str :: "path \<Rightarrow> string" where
  "path_str p = (if p = [] then ''/'' else concat (map (\<lambda>s. CHR ''/'' # s) p))"

section \<open>Errors\<close>

text \<open>
  What the modelled code raises: the HTTP errors of the routes, the integrity error of an
  insert that violates a key, and the operating-system errors of the storage volume.
\<close>

datatype error = HTTPException nat string | IntegrityError | OSError

section \<open>Artifact store (\<^verbatim>\<open>app/storage/local.py\<close>)\<close>

text \<open>
  \<^verbatim>\<open>STORAGE_DIR\<close> is a parameter \<open>root\<close> of every operation of the store.
\<close>

definition get_task_dir :: "path \<Rightarrow> string \<Rightarrow> path" where
  "get_task_dir root task_id = truediv root task_id"

definition assets_dir :: "path \<Rightarrow> string \<Rightarrow> path" where
  "assets_dir root task_id = truediv (get_task_dir root task_id) ''output_artifacts''"

definition get_image_path :: "fs \<Rightarrow> path \<Rightarrow> string \<Rightarrow> string \<Rightarrow> path option" where
  "get_image_path f root task_id filename =
     (let task_dir = get_task_dir root task_id;
          image_path = truediv (truediv task_dir ''output_artifacts'') filename
      in if exists f image_path then Some image_path else None)"

definition task_has_markdown :: "fs \<Rightarrow> path \<Rightarrow> string \<Rightarrow> bool" where
  "task_has_markdown f root task_id = exists f (truediv (get_task_dir root task_id) ''output.md'')"

definition get_markdown :: "fs \<Rightarrow> path \<Rightarrow> string \<Rightarrow> bytes option" where
  "get_markdown f root task_id =
     (let md_path = truediv (get_task_dir root task_id) ''output.md''
      in if exists f md_path then read_text f md_path else None)"


definition create_task_dir :: "fs \<Rightarrow> path \<Rightarrow> string \<Rightarrow> error + fs" where
  "create_task_dir f root task_id =
     (case mkdir_parents f (get_task_dir root task_id) of
        None \<Rightarrow> Inl OSError
      | Some f' \<Rightarrow> Inr f')"

definition save_markdown :: "fs \<Rightarrow> path \<Rightarrow> string \<Rightarrow> bytes \<Rightarrow> error + fs" where
  "save_markdown f root task_id content =
     (case write_text f (truediv (get_task_dir root task_id) ''output.md'') content of
        None \<Rightarrow> Inl OSError
      | Some f' \<Rightarrow> Inr f')"

text \<open>
  Two scanners for the regular expressions of the code: a literal at the head of a string,
  and a run of characters other than \<open>d\<close> that is followed by \<open>d\<close>. A negated class
  followed by its own delimiter matches in exactly one way, the run up to the first \<open>d\<close>.
\<close>

definition strip_prefix :: "string \<Rightarrow> string \<Rightarrow> string option" where
  "strip_prefix p s = (if prefix p s then Some (drop (length p) s) else None)"

definition span_until :: "char \<Rightarrow> string \<Rightarrow> (string \<times> string) option" where
  "span_until d s =
     (case dropWhile (\<lambda>c. c \<noteq> d) s of
        [] \<Rightarrow> None
      | _ # r \<Rightarrow> Some (takeWhile (\<lambda>c. c \<noteq> d) s, r))"

lemma strip_prefix_SomeD: "strip_prefix p s = Some t \<Longrightarrow> s = p @ t"
  by (auto simp: strip_prefix_def prefix_def split: if_splits)

lemma span_until_SomeD:
  assumes "span_until d s = Some (a, r)"
  shows "s = a @ d # r \<and> d \<notin> set a"
proof -
  from assms obtain x where dw: "dropWhile (\<lambda>c. c \<noteq> d) s = x # r"
    and a: "a = takeWhile (\<lambda>c. c \<noteq> d) s"
    by (auto simp: span_until_def split: list.splits)
  from dw have "x = d"
    by (metis (mono_tags, lifting) hd_dropWhile list.sel(1) list.simps(3))
  with dw a have "s = a @ d # r"
    by (metis takeWhile_dropWhile_id)
  moreover from a have "d \<notin> set a"
    by (auto dest: set_takeWhileD)
  ultimately show ?thesis by simp
qed

lemma span_until_append:
  assumes "d \<notin> set a"
  shows "span_until d (a @ d # r) = Some (a, r)"
proof -
  from assms have "dropWhile (\<lambda>c. c \<noteq> d) (a @ d # r) = d # r"
    and "takeWhile (\<lambda>c. c \<noteq> d) (a @ d # r) = a"
    by (induction a) auto
  then show ?thesis
    by (simp add: span_until_def)
qed

text \<open>
  The substitution of \<^verbatim>\<open>create_markdown_zip\<close>,
  \<^verbatim>\<open>re.sub(r'!\[([^\]]*)\]\(/api/images/[^/]+/([^)]+)\)', r'![\1](images/\2)', md_content)\<close>.
  \<open>match_api_ref\<close> matches the pattern at the head of a string and gives the first group,
  the second group and the text after the match; \<open>localise_image_paths\<close> is the
  substitution, leftmost match first, matches not overlapping.
\<close>

definition match_api_ref :: "string \<Rightarrow> (string \<times> string \<times> string) option" where
  "match_api_ref s =
     (case strip_prefix ''!['' s of
        None \<Rightarrow> None
      | Some t \<Rightarrow>
     (case span_until CHR '']'' t of
        None \<Rightarrow> None
      | Some (alt, r1) \<Rightarrow>
     (case strip_prefix ''(/api/images/'' r1 of
        None \<Rightarrow> None
      | Some r2 \<Rightarrow>
     (case span_until CHR ''/'' r2 of
        None \<Rightarrow> None
      | Some (seg, r3) \<Rightarrow>
     (case span_until CHR '')'' r3 of
        None \<Rightarrow> None
      | Some (name, rest) \<Rightarrow>
          if seg \<noteq> [] \<and> name \<noteq> [] then Some (alt, name, rest) else None)))))"

lemma match_api_refD:
  assumes "match_api_ref s = Some (alt, name, rest)"
  shows "\<exists>seg. s = ''!['' @ alt @ ''](/api/images/'' @ seg @ ''/'' @ name @ '')'' @ rest
         \<and> CHR '']'' \<notin> set alt \<and> seg \<noteq> [] \<and> CHR ''/'' \<notin> set seg
         \<and> name \<noteq> [] \<and> CHR '')'' \<notin> set name"
proof -
  from assms obtain t r1 r2 seg r3 where
    1: "strip_prefix ''!['' s = Some t" and
    2: "span_until CHR '']'' t = Some (alt, r1)" and
    3: "strip_prefix ''(/api/images/'' r1 = Some r2" and
    4: "span_until CHR ''/'' r2 = Some (seg, r3)" and
    5: "span_until CHR '')'' r3 = Some (name, rest)" and
    6: "seg \<noteq> []" "name \<noteq> []"
    by (auto simp: match_api_ref_def split: option.splits prod.splits if_splits)
  note strip_prefix_SomeD [OF 1] span_until_SomeD [OF 2] strip_prefix_SomeD [OF 3]
       span_until_SomeD [OF 4] span_until_SomeD [OF 5]
  with 6 show ?thesis
    by auto
qed

lemma match_api_refI:
  assumes "CHR '']'' \<notin> set alt" "seg \<noteq> []" "CHR ''/'' \<notin> set seg"
    "name \<noteq> []" "CHR '')'' \<notin> set name"
  shows "match_api_ref (''!['' @ alt @ ''](/api/images/'' @ seg @ ''/'' @ name @ '')'' @ rest)
           = Some (alt, name, rest)"
  using assms by (simp add: match_api_ref_def strip_prefix_def span_until_append)

function localise_image_paths :: "string \<Rightarrow> string" where
  "localise_image_paths [] = []"
| "localise_image_paths (c # cs) =
     (case match_api_ref (c # cs) of
        Some (alt, name, rest) \<Rightarrow>
          ''!['' @ alt @ ''](images/'' @ name @ '')'' @ localise_image_paths rest
      | None \<Rightarrow> c # localise_image_paths cs)"
  by pat_completeness auto
termination
proof (relation "measure length")
  fix c cs x alt y name rest
  assume "match_api_ref (c # cs) = Some x" and "(alt, y) = x" and "(name, rest) = y"
  then have "match_api_ref (c # cs) = Some (alt, name, rest)"
    by simp
  then obtain seg where "c # cs = ''!['' @ alt @ ''](/api/images/'' @ seg @ ''/'' @ name @ '')'' @ rest"
    by (blast dest: match_api_refD)
  then have "length (c # cs) = length (''!['' @ alt @ ''](/api/images/'' @ seg @ ''/'' @ name @ '')'' @ rest)"
    by (rule arg_cong)
  then show "(rest, c # cs) \<in> measure length"
    by simp
qed simp_all

text \<open>The image types that go into the archive.\<close>

definition image_suffixes :: "string list" where
  "image_suffixes = [''.png'', ''.jpg'', ''.jpeg'', ''.gif'', ''.webp'']"

text \<open>
  An archive is the list of its members, name and content, in the order written
  (compression is not modelled). The members added from \<^verbatim>\<open>output_artifacts\<close>:
\<close>

type_synonym archive = "(string \<times> bytes) list"

definition zip_images :: "fs \<Rightarrow> path \<Rightarrow> archive" where
  "zip_images f artifacts_dir =
     concat (map (\<lambda>name.
        (let image_file = artifacts_dir @ [name]
         in if is_file f image_file \<and> lower (path_suffix image_file) \<in> set image_suffixes
            then (case read_text f image_file of
                    Some content \<Rightarrow> [(''images/'' @ name, content)]
                  | None \<Rightarrow> [])
            else []))
       (case realpath f artifacts_dir of None \<Rightarrow> [] | Some d \<Rightarrow> iterdir f d))"

definition create_markdown_zip :: "fs \<Rightarrow> path \<Rightarrow> string \<Rightarrow> error + archive option" where
  "create_markdown_zip f root task_id =
     (let task_dir = get_task_dir root task_id;
          md_path = truediv task_dir ''output.md''
      in if \<not> exists f md_path then Inr None
         else case read_text f md_path of
                None \<Rightarrow> Inl OSError
              | Some md_content \<Rightarrow>
                  (let artifacts_dir = truediv task_dir ''output_artifacts''
                   in if exists f artifacts_dir \<and> \<not> is_file f artifacts_dir
                      then Inr (Some ((''output.md'', localise_image_paths md_content)
                                      # zip_images f artifacts_dir))
                      else if exists f artifacts_dir then Inl OSError
                      else Inr (Some [(''output.md'', localise_image_paths md_content)])))"

section \<open>Conversion adapter (\<^verbatim>\<open>app/services/converter.py\<close>)\<close>

text \<open>
  The libraries the adapter calls are parameters of the model:
  \<^item> \<open>pdf_metadata_title\<close>: what \<^verbatim>\<open>pypdf.PdfReader(buf).metadata.title\<close> gives, \<open>None\<close> when
    the document has no metadata or no title or when reading raises;
  \<^item> \<open>sha256\<close>: the digest of \<^verbatim>\<open>hashlib.sha256\<close>, as bytes;
  \<^item> \<open>docling\<close>: conversion and \<^verbatim>\<open>save_as_markdown\<close> for a destination path: a failure
    with its message, or the document name, the Markdown text as saved (with the engine's
    own image paths) and the picture files saved beside it in \<^verbatim>\<open>output_artifacts\<close>.
\<close>

datatype engine_result = EngineError string | EngineDoc string bytes "(string \<times> bytes) list"

record env =
  pdf_metadata_title :: "bytes \<Rightarrow> string option"
  sha256 :: "bytes \<Rightarrow> bytes"
  docling :: "path \<Rightarrow> bytes \<Rightarrow> engine_result"

text \<open>\<^verbatim>\<open>str.strip()\<close>, on ASCII white space.\<close>

definition is_space :: "char \<Rightarrow> bool" where
  "is_space c = (c \<in> set [CHR '' '', CHR 0x09, CHR 0x0A, CHR 0x0B, CHR 0x0C, CHR 0x0D,
                           CHR 0x1C, CHR 0x1D, CHR 0x1E, CHR 0x1F])"

definition strip :: "string \<Rightarrow> string" where
  "strip s = rev (dropWhile is_space (rev (dropWhile is_space s)))"

definition get_pdf_title :: "env \<Rightarrow> bytes \<Rightarrow> string option" where
  "get_pdf_title e pdf_bytes =
     (case pdf_metadata_title e pdf_bytes of
        None \<Rightarrow> None
      | Some t \<Rightarrow>
          if t = [] then None
          else (let title = strip t in if title \<noteq> [] then Some title else None))"

text \<open>\<^verbatim>\<open>hexdigest()\<close>: two lower-case hexadecimal digits for each byte.\<close>

definition hex_digit :: "nat \<Rightarrow> char" where
  "hex_digit n = ''0123456789abcdef'' ! (n mod 16)"

definition hex_byte :: "char \<Rightarrow> string" where
  "hex_byte c = [hex_digit (of_char c div 16), hex_digit (of_char c mod 16)]"

definition hexdigest :: "bytes \<Rightarrow> string" where
  "hexdigest bs = concat (map hex_byte bs)"

definition get_pdf_hash :: "env \<Rightarrow> bytes \<Rightarrow> string" where
  "get_pdf_hash e pdf_bytes = take 16 (hexdigest (sha256 e pdf_bytes))"

text \<open>
  The substitution of \<^verbatim>\<open>convert_pdf_to_markdown\<close>,
  \<^verbatim>\<open>re.sub(r'\]\(([^)]+/output_artifacts/[^)]+)\)', replace_image_path, md_content)\<close>.
  The group holds no closing parenthesis and is followed by one, so it is the run up to the
  first closing parenthesis; the pattern matches when that run is some non-empty text, the
  directory marker and some non-empty text (\<open>artifact_path\<close>).
\<close>

fun marker_inside :: "string \<Rightarrow> bool" where
  "marker_inside [] = False"
| "marker_inside (c # cs) =
     (case strip_prefix ''/output_artifacts/'' (c # cs) of
        Some (b # bs) \<Rightarrow> True
      | _ \<Rightarrow> marker_inside cs)"

definition artifact_path :: "string \<Rightarrow> bool" where
  "artifact_path full_path = (case full_path of [] \<Rightarrow> False | a # r \<Rightarrow> marker_inside r)"

definition match_artifact_ref :: "string \<Rightarrow> (string \<times> string) option" where
  "match_artifact_ref s =
     (case strip_prefix '']('' s of
        None \<Rightarrow> None
      | Some t \<Rightarrow>
     (case span_until CHR '')'' t of
        None \<Rightarrow> None
      | Some (full_path, rest) \<Rightarrow>
          if artifact_path full_path then Some (full_path, rest) else None))"

definition replace_image_path :: "string \<Rightarrow> string \<Rightarrow> string" where
  "replace_image_path task_id full_path =
     (let filename = last (split_on CHR ''/'' full_path)
      in ''](/api/images/'' @ task_id @ ''/'' @ filename @ '')'')"

lemma match_artifact_refD:
  assumes "match_artifact_ref s = Some (full_path, rest)"
  shows "s = '']('' @ full_path @ '')'' @ rest \<and> CHR '')'' \<notin> set full_path
         \<and> artifact_path full_path"
proof -
  from assms obtain t where
    1: "strip_prefix '']('' s = Some t" and
    2: "span_until CHR '')'' t = Some (full_path, rest)" and
    3: "artifact_path full_path"
    by (auto simp: match_artifact_ref_def split: option.splits prod.splits if_splits)
  from strip_prefix_SomeD [OF 1] span_until_SomeD [OF 2] 3 show ?thesis
    by auto
qed

function fix_image_paths :: "string \<Rightarrow> string \<Rightarrow> string" where
  "fix_image_paths task_id [] = []"
| "fix_image_paths task_id (c # cs) =
     (case match_artifact_ref (c # cs) of
        Some (full_path, rest) \<Rightarrow>
          replace_image_path task_id full_path @ fix_image_paths task_id rest
      | None \<Rightarrow> c # fix_image_paths task_id cs)"
  by pat_completeness auto
termination
proof (relation "measure (\<lambda>(t, s). length s)")
  fix task_id :: string and c cs x full_path rest
  assume "match_artifact_ref (c # cs) = Some x" and "(full_path, rest) = x"
  then have "match_artifact_ref (c # cs) = Some (full_path, rest)"
    by simp
  then have "c # cs = '']('' @ full_path @ '')'' @ rest"
    by (blast dest: match_artifact_refD)
  then have "length (c # cs) = length ('']('' @ full_path @ '')'' @ rest)"
    by (rule arg_cong)
  then show "((task_id, rest), (task_id, c # cs)) \<in> measure (\<lambda>(t, s). length s)"
    by simp
qed simp_all

text \<open>
  What \<^verbatim>\<open>save_as_markdown\<close> leaves on the volume: the Markdown file, and the pictures in
  \<^verbatim>\<open>output_artifacts\<close> beside it (the directory is made when there is a picture).
\<close>

fun write_files :: "fs \<Rightarrow> path \<Rightarrow> (string \<times> bytes) list \<Rightarrow> fs option" where
  "write_files f d [] = Some f"
| "write_files f d ((name, content) # others) =
     (case write_text f (d @ [name]) content of
        None \<Rightarrow> None
      | Some f' \<Rightarrow> write_files f' d others)"

definition save_as_markdown :: "fs \<Rightarrow> path \<Rightarrow> bytes \<Rightarrow> (string \<times> bytes) list \<Rightarrow> fs option" where
  "save_as_markdown f md_path md pictures =
     (case write_text f md_path md of
        None \<Rightarrow> None
      | Some f1 \<Rightarrow>
          if pictures = [] then Some f1
          else (case mkdir_parents f1 (butlast md_path @ [''output_artifacts'']) of
                  None \<Rightarrow> None
                | Some f2 \<Rightarrow> write_files f2 (butlast md_path @ [''output_artifacts'']) pictures))"

text \<open>
  \<^verbatim>\<open>convert_pdf_to_markdown\<close> returns \<^verbatim>\<open>(success, title, error_message)\<close>; here together
  with the volume it leaves. Every exception ends in the \<^verbatim>\<open>except\<close> branch; the text of
  an operating-system error is not modelled.
\<close>

definition convert_pdf_to_markdown ::
  "env \<Rightarrow> path \<Rightarrow> string \<Rightarrow> bytes \<Rightarrow> fs \<Rightarrow> fs \<times> (bool \<times> string option \<times> string option)" where
  "convert_pdf_to_markdown e root task_id pdf_bytes f =
     (case create_task_dir f root task_id of
        Inl _ \<Rightarrow> (f, (False, None, Some ''OSError''))
      | Inr f1 \<Rightarrow>
          (let task_dir = get_task_dir root task_id;
               md_path = truediv task_dir ''output.md''
           in case docling e md_path pdf_bytes of
                EngineError msg \<Rightarrow> (f1, (False, None, Some msg))
              | EngineDoc name md pictures \<Rightarrow>
                  (let title = (if name \<noteq> [] then name else ''Untitled'')
                   in case save_as_markdown f1 md_path md pictures of
                        None \<Rightarrow> (f1, (False, None, Some ''OSError''))
                      | Some f2 \<Rightarrow>
                          (case read_text f2 md_path of
                             None \<Rightarrow> (f2, (False, None, Some ''OSError''))
                           | Some md_content \<Rightarrow>
                               (case write_text f2 md_path (fix_image_paths task_id md_content) of
                                  None \<Rightarrow> (f2, (False, None, Some ''OSError''))
                                | Some f3 \<Rightarrow> (f3, (True, Some title, None)))))))"


section \<open>Cache and task registry (\<^verbatim>\<open>app/services/cache.py\<close>)\<close>

text \<open>
  The two SQLite tables are lists of rows in insertion order. A time stamp is a number of
  seconds; \<^verbatim>\<open>datetime.now()\<close> is the parameter \<open>now\<close> of an operation. The status column
  is text, as in the schema.
\<close>

record task =
  t_id :: string
  t_status :: string
  t_format :: string
  t_title :: "string option"
  t_output_path :: "string option"
  t_error_message :: "string option"
  t_created_at :: int
  t_completed_at :: "int option"

record cache_entry =
  c_id :: nat
  c_title :: string
  c_format :: string
  c_output_path :: string
  c_created_at :: int

text \<open>\<open>cache_seq\<close> is the last value of the \<^verbatim>\<open>AUTOINCREMENT\<close> key of the cache table.\<close>

record registry =
  tasks :: "task list"
  cache :: "cache_entry list"
  cache_seq :: nat

definition init_db :: registry where
  "init_db = \<lparr>tasks = [], cache = [], cache_seq = 0\<rparr>"

definition get_cache_by_title :: "string \<Rightarrow> string \<Rightarrow> registry \<Rightarrow> cache_entry option" where
  "get_cache_by_title title fmt r =
     find (\<lambda>c. c_title c = title \<and> c_format c = fmt) (cache r)"

text \<open>
  \<^verbatim>\<open>INSERT OR REPLACE\<close> under \<^verbatim>\<open>UNIQUE(title, format)\<close>: a row with the same pair is
  deleted and the new row is inserted under a new key, which is returned.
\<close>

definition create_cache :: "string \<Rightarrow> string \<Rightarrow> string \<Rightarrow> int \<Rightarrow> registry \<Rightarrow> registry \<times> nat" where
  "create_cache title fmt output_path now r =
     (let row = \<lparr>c_id = Suc (cache_seq r), c_title = title, c_format = fmt,
                 c_output_path = output_path, c_created_at = now\<rparr>
      in (r\<lparr>cache := filter (\<lambda>c. \<not> (c_title c = title \<and> c_format c = fmt)) (cache r) @ [row],
            cache_seq := Suc (cache_seq r)\<rparr>,
          Suc (cache_seq r)))"

text \<open>\<^verbatim>\<open>INSERT\<close> under \<^verbatim>\<open>PRIMARY KEY (id)\<close>: an existing id raises.\<close>

definition create_task :: "string \<Rightarrow> string \<Rightarrow> int \<Rightarrow> registry \<Rightarrow> error + registry" where
  "create_task task_id fmt now r =
     (if \<exists>t \<in> set (tasks r). t_id t = task_id then Inl IntegrityError
      else Inr (r\<lparr>tasks := tasks r @
                  [\<lparr>t_id = task_id, t_status = ''pending'', t_format = fmt, t_title = None,
                    t_output_path = None, t_error_message = None, t_created_at = now,
                    t_completed_at = None\<rparr>]\<rparr>))"

definition get_task :: "string \<Rightarrow> registry \<Rightarrow> task option" where
  "get_task task_id r = find (\<lambda>t. t_id t = task_id) (tasks r)"

text \<open>\<^verbatim>\<open>UPDATE tasks SET ... WHERE id = ?\<close>: the rows with the id are rewritten; when
  there is none, nothing changes.\<close>

definition update_task_status ::
  "string \<Rightarrow> string \<Rightarrow> string option \<Rightarrow> string option \<Rightarrow> string option \<Rightarrow> int
     \<Rightarrow> registry \<Rightarrow> registry" where
  "update_task_status task_id status title output_path error_message now r =
     (if status \<in> {''done'', ''error''} then
        r\<lparr>tasks := map (\<lambda>t. if t_id t = task_id
                              then t\<lparr>t_status := status, t_title := title,
                                     t_output_path := output_path,
                                     t_error_message := error_message,
                                     t_completed_at := Some now\<rparr>
                              else t) (tasks r)\<rparr>
      else
        r\<lparr>tasks := map (\<lambda>t. if t_id t = task_id
                              then t\<lparr>t_status := status, t_title := title\<rparr>
                              else t) (tasks r)\<rparr>)"

text \<open>
  \<^verbatim>\<open>DELETE FROM tasks WHERE created_at < datetime('now', '-N days')\<close>, the count of deleted
  rows returned. A negative \<open>days\<close> makes the modifier \<^verbatim>\<open>--N days\<close>, which SQLite does not
  accept: the bound is then \<^verbatim>\<open>NULL\<close> and no row compares below it.
\<close>

definition delete_old_tasks :: "int \<Rightarrow> int \<Rightarrow> registry \<Rightarrow> registry \<times> nat" where
  "delete_old_tasks days now r =
     (if days < 0 then (r, 0)
      else (let kept = filter (\<lambda>t. \<not> t_created_at t < now - days * 86400) (tasks r)
            in (r\<lparr>tasks := kept\<rparr>, length (tasks r) - length kept)))"


section \<open>Orchestrator (\<^verbatim>\<open>app/api/routes.py\<close>)\<close>

text \<open>
  The state of the service: the registry, the storage volume, the background tasks handed
  to \<^verbatim>\<open>BackgroundTasks\<close> and the clock that \<^verbatim>\<open>datetime.now()\<close> reads. A background task
  is \<^verbatim>\<open>_process_conversion(task_id, pdf_bytes, content_hash)\<close>; it gives control back at
  each \<^verbatim>\<open>await\<close>, so its progress is recorded as a phase.
\<close>

datatype phase =
    Queued
  | Started
  | Converted bool "string option" "string option"
  | Marked string
  | TitleCached
  | Finished

record job =
  j_task_id :: string
  j_pdf_bytes :: bytes
  j_content_hash :: string
  j_phase :: phase

record sys =
  reg :: registry
  vol :: fs
  jobs :: "job list"
  clock :: int

record convert_response =
  r_task_id :: string
  r_status :: string
  r_message :: string
  r_cached :: bool

text \<open>
  The cache check that \<^verbatim>\<open>convert_pdf\<close> makes twice, for the title and for the content
  hash: the entry's task, when its Markdown file still exists.
\<close>

definition cached_task :: "sys \<Rightarrow> path \<Rightarrow> string \<Rightarrow> string option" where
  "cached_task s root key =
     (case get_cache_by_title key ''markdown'' (reg s) of
        None \<Rightarrow> None
      | Some cached \<Rightarrow>
          (let cached_task_id = c_output_path cached
           in if task_has_markdown (vol s) root cached_task_id then Some cached_task_id
              else None))"

definition cache_hit_response :: "string \<Rightarrow> convert_response" where
  "cache_hit_response cached_task_id =
     \<lparr>r_task_id = cached_task_id, r_status = ''done'',
      r_message = ''Found cached conversion result'', r_cached = True\<rparr>"

text \<open>
  \<^verbatim>\<open>POST /api/convert\<close>. \<open>uuid\<close> is the value of \<^verbatim>\<open>str(uuid.uuid4())\<close>, \<open>filename\<close> is
  \<^verbatim>\<open>file.filename\<close>.
\<close>

definition convert_pdf ::
  "env \<Rightarrow> path \<Rightarrow> string \<Rightarrow> string option \<Rightarrow> bytes \<Rightarrow> sys \<Rightarrow> (error + convert_response) \<times> sys" where
  "convert_pdf e root uuid filename pdf_bytes s =
     (if (case filename of None \<Rightarrow> True | Some n \<Rightarrow> n = [] \<or> \<not> endswith (lower n) ''.pdf'')
      then (Inl (HTTPException 400 ''Only PDF files are accepted''), s)
      else if length pdf_bytes = 0
      then (Inl (HTTPException 400 ''Empty file''), s)
      else
        (let title = get_pdf_title e pdf_bytes
         in case (case title of
                    None \<Rightarrow> None
                  | Some t \<Rightarrow> if t = [] then None else cached_task s root t) of
              Some cached_task_id \<Rightarrow> (Inr (cache_hit_response cached_task_id), s)
            | None \<Rightarrow>
                (let content_hash = get_pdf_hash e pdf_bytes
                 in case cached_task s root (''hash:'' @ content_hash) of
                      Some cached_task_id \<Rightarrow> (Inr (cache_hit_response cached_task_id), s)
                    | None \<Rightarrow>
                        (case create_task uuid ''markdown'' (clock s) (reg s) of
                           Inl err \<Rightarrow> (Inl err, s)
                         | Inr r' \<Rightarrow>
                             (Inr \<lparr>r_task_id = uuid, r_status = ''pending'',
                                   r_message =
                                     ''Conversion started. Check status with /api/status/{task_id}'',
                                   r_cached = False\<rparr>,
                              s\<lparr>reg := r',
                                jobs := jobs s @
                                  [\<lparr>j_task_id = uuid, j_pdf_bytes = pdf_bytes,
                                    j_content_hash = content_hash, j_phase = Queued\<rparr>]\<rparr>)))))"

text \<open>
  One stretch of \<^verbatim>\<open>_process_conversion\<close> between two \<^verbatim>\<open>await\<close>s, for the background task
  at position \<open>i\<close>: the update to \<^verbatim>\<open>processing\<close>; the conversion in the executor; the
  update to \<^verbatim>\<open>done\<close> or \<^verbatim>\<open>error\<close>; the cache entry under the title; the cache entry
  under the content hash. The registry operations of the model do not raise, so the outer
  \<^verbatim>\<open>except\<close> branch is not reached.
\<close>

definition set_phase :: "nat \<Rightarrow> phase \<Rightarrow> job list \<Rightarrow> job list" where
  "set_phase i ph js = js[i := (js ! i)\<lparr>j_phase := ph\<rparr>]"

definition advance_job :: "env \<Rightarrow> path \<Rightarrow> nat \<Rightarrow> sys \<Rightarrow> sys" where
  "advance_job e root i s =
     (if i < length (jobs s) then
        (let j = jobs s ! i; task_id = j_task_id j in
         case j_phase j of
           Queued \<Rightarrow>
             s\<lparr>reg := update_task_status task_id ''processing'' None None None (clock s) (reg s),
               jobs := set_phase i Started (jobs s)\<rparr>
         | Started \<Rightarrow>
             (case convert_pdf_to_markdown e root task_id (j_pdf_bytes j) (vol s) of
                (f', success, title, err) \<Rightarrow>
                  s\<lparr>vol := f', jobs := set_phase i (Converted success title err) (jobs s)\<rparr>)
         | Converted success title err \<Rightarrow>
             if success then
               (let title' = (case title of
                                None \<Rightarrow> ''Untitled''
                              | Some t \<Rightarrow> if t = [] then ''Untitled'' else t)
                in s\<lparr>reg := update_task_status task_id ''done'' (Some title')
                               (Some (path_str (get_task_dir root task_id))) None
                               (clock s) (reg s),
                      jobs := set_phase i (Marked title') (jobs s)\<rparr>)
             else
               s\<lparr>reg := update_task_status task_id ''error'' None None err (clock s) (reg s),
                 jobs := set_phase i Finished (jobs s)\<rparr>
         | Marked title' \<Rightarrow>
             s\<lparr>reg := fst (create_cache title' ''markdown'' task_id (clock s) (reg s)),
               jobs := set_phase i TitleCached (jobs s)\<rparr>
         | TitleCached \<Rightarrow>
             s\<lparr>reg := fst (create_cache (''hash:'' @ j_content_hash j) ''markdown'' task_id
                              (clock s) (reg s)),
               jobs := set_phase i Finished (jobs s)\<rparr>
         | Finished \<Rightarrow> s)
      else s)"

text \<open>The whole of \<^verbatim>\<open>_process_conversion\<close>, run without interruption.\<close>

definition process_conversion :: "env \<Rightarrow> path \<Rightarrow> nat \<Rightarrow> sys \<Rightarrow> sys" where
  "process_conversion e root i s =
     advance_job e root i (advance_job e root i (advance_job e root i
       (advance_job e root i (advance_job e root i s))))"

text \<open>
  The route \<^verbatim>\<open>GET /api/images/{task_id}/{filename}\<close>: 404 when the store has no path,
  else the file with a media type chosen by its lower-cased extension.
\<close>

definition media_types :: "string \<Rightarrow> string option" where
  "media_types = map_of
     [(''.png'', ''image/png''), (''.jpg'', ''image/jpeg''), (''.jpeg'', ''image/jpeg''),
      (''.gif'', ''image/gif''), (''.webp'', ''image/webp'')]"

definition get_image :: "fs \<Rightarrow> path \<Rightarrow> string \<Rightarrow> string \<Rightarrow> error + (path \<times> string)" where
  "get_image f root task_id filename =
     (case get_image_path f root task_id filename of
        None \<Rightarrow> Inl (HTTPException 404 ''Image not found'')
      | Some image_path \<Rightarrow>
          (let suffix = lower (path_suffix image_path);
               media_type = (case media_types suffix of Some m \<Rightarrow> m | None \<Rightarrow> ''image/png'')
           in Inr (image_path, media_type)))"

text \<open>
  The runs of the service. A step is a request to \<^verbatim>\<open>/api/convert\<close> (with an identifier
  that no background task carries: \<^verbatim>\<open>uuid4\<close> values do not repeat), one stretch of a
  background task, the maintenance operation \<^verbatim>\<open>delete_old_tasks\<close>, or time passing.
\<close>

inductive step :: "env \<Rightarrow> path \<Rightarrow> sys \<Rightarrow> sys \<Rightarrow> bool" for e :: env and root :: path where
  submit: "uuid \<notin> j_task_id ` set (jobs s) \<Longrightarrow>
           convert_pdf e root uuid filename pdf_bytes s = (res, s') \<Longrightarrow> step e root s s'"
| advance: "i < length (jobs s) \<Longrightarrow> step e root s (advance_job e root i s)"
| prune: "step e root s (s\<lparr>reg := fst (delete_old_tasks days (clock s) (reg s))\<rparr>)"
| tick: "0 \<le> d \<Longrightarrow> step e root s (s\<lparr>clock := clock s + d\<rparr>)"

definition init_sys :: "fs \<Rightarrow> int \<Rightarrow> sys" where
  "init_sys f c = \<lparr>reg = init_db, vol = f, jobs = [], clock = c\<rparr>"

inductive reachable :: "env \<Rightarrow> path \<Rightarrow> sys \<Rightarrow> bool" for e :: env and root :: path where
  start: "reachable e root (init_sys f c)"
| later: "reachable e root s \<Longrightarrow> step e root s s' \<Longrightarrow> reachable e root s'"


section \<open>Example data\<close>

text \<open>
  Three documents with their real SHA-256 digests. The first two carry the metadata title
  \<^verbatim>\<open>Report\<close>, the third the metadata title \<^verbatim>\<open>document\<close>. The engine of the example
  names every document after the stream it is given, \<^verbatim>\<open>document.pdf\<close>, and saves one
  picture.
\<close>

definition example_env :: env where
  "example_env =
     \<lparr>pdf_metadata_title =
        map_of [(''%PDF-A'', ''Report''), (''%PDF-B'', ''Report''), (''%PDF-C'', ''document'')],
      sha256 = (\<lambda>b. case map_of
        [(''%PDF-A'',
          [CHR 0x48, CHR 0xF6, CHR 0xEE, CHR 0x2D, CHR 0x23, CHR 0xF6, CHR 0x83, CHR 0xB6,
           CHR 0x6C, CHR 0xBD, CHR 0x57, CHR 0x18, CHR 0xC0, CHR 0x88, CHR 0x46, CHR 0xAB,
           CHR 0x88, CHR 0xF9, CHR 0x84, CHR 0x21, CHR 0x35, CHR 0x49, CHR 0x7E, CHR 0x4A,
           CHR 0xFB, CHR 0xF5, CHR 0x49, CHR 0xDD, CHR 0x4F, CHR 0xEB, CHR 0xEA, CHR 0x6A]),
         (''%PDF-B'',
          [CHR 0x58, CHR 0x5E, CHR 0xD6, CHR 0xBA, CHR 0x40, CHR 0xA5, CHR 0x6B, CHR 0x2B,
           CHR 0x0C, CHR 0xBB, CHR 0x19, CHR 0x11, CHR 0x5C, CHR 0x18, CHR 0x1F, CHR 0xB4,
           CHR 0x8A, CHR 0x38, CHR 0x04, CHR 0x7A, CHR 0xB2, CHR 0xD2, CHR 0x19, CHR 0xC1,
           CHR 0x37, CHR 0x73, CHR 0x9A, CHR 0xDA, CHR 0x40, CHR 0x09, CHR 0x27, CHR 0x5E]),
         (''%PDF-C'',
          [CHR 0x12, CHR 0xCE, CHR 0x5E, CHR 0x85, CHR 0xF9, CHR 0xA4, CHR 0xF3, CHR 0xD2,
           CHR 0x84, CHR 0x79, CHR 0xC9, CHR 0xA3, CHR 0x45, CHR 0x6D, CHR 0xB4, CHR 0x85,
           CHR 0xB4, CHR 0x29, CHR 0xB4, CHR 0x0A, CHR 0x72, CHR 0x6B, CHR 0xB8, CHR 0x4B,
           CHR 0x72, CHR 0x64, CHR 0x6A, CHR 0xAA, CHR 0x99, CHR 0x98, CHR 0x22, CHR 0x48])] b of
          Some d \<Rightarrow> d
        | None \<Rightarrow> replicate 32 (CHR 0x00)),
      docling = (\<lambda>md_path b.
        EngineDoc ''document''
          (''![Image]('' @ path_str (butlast md_path) @ ''/output_artifacts/a.png)'')
          [(''a.png'', ''PNG'')])\<rparr>"

text \<open>The storage directory of the examples, and a volume that holds nothing else.\<close>

definition storage_root :: path where
  "storage_root = [''srv'', ''out'']"

definition empty_volume :: fs where
  "empty_volume = [([], Dir), ([''srv''], Dir), ([''srv'', ''out''], Dir)]"


section \<open>Facts about paths and the storage volume\<close>

lemma split_on_no_sep: "d \<notin> set s \<Longrightarrow> split_on d s = [s]"
  by (induction s) auto

lemma path_parts_single:
  assumes "CHR ''/'' \<notin> set s"
  shows "path_parts s = (if s = [] \<or> s = ''.'' then [] else [s])"
  using assms by (simp add: path_parts_def split_on_no_sep)

lemma truediv_single:
  assumes "CHR ''/'' \<notin> set s"
  shows "truediv p s = p @ (if s = [] \<or> s = ''.'' then [] else [s])"
proof -
  from assms have "s = [] \<or> hd s \<noteq> CHR ''/''"
    by (cases s) auto
  then show ?thesis
    using assms by (auto simp: truediv_def path_parts_single)
qed

lemma walk_append:
  "walk f cur (a @ b) = Option.bind (walk f cur a) (\<lambda>c. walk f c b)"
  by (induction a arbitrary: cur) (auto simp: Let_def)

lemma walk_child:
  assumes "s \<noteq> ''..''"
  shows "walk f d [s] = (if f d = Some Dir \<and> f (d @ [s]) \<noteq> None then Some (d @ [s]) else None)"
  using assms by (simp add: Let_def)

lemma walk_mono:
  assumes "\<And>x. m x = Some Dir \<Longrightarrow> m' x = Some Dir" "\<And>x. m x \<noteq> None \<Longrightarrow> m' x \<noteq> None"
  shows "walk m cur p = Some r \<Longrightarrow> walk m' cur p = Some r"
proof (induction p arbitrary: cur)
  case Nil
  then show ?case by simp
next
  case (Cons s ss)
  let ?nxt = "if s = ''..'' then butlast cur else cur @ [s]"
  from Cons.prems have dir: "m cur = Some Dir" and nxt: "m ?nxt \<noteq> None"
    and w: "walk m ?nxt ss = Some r"
    by (auto simp: Let_def split: if_splits)
  from dir have "m' cur = Some Dir"
    by (rule assms(1))
  moreover from nxt have "m' ?nxt \<noteq> None"
    by (rule assms(2))
  moreover from w have "walk m' ?nxt ss = Some r"
    by (rule Cons.IH)
  ultimately show ?case
    by (simp add: Let_def)
qed

lemma write_text_result:
  assumes "write_text f p content = Some f'"
  shows "read_text f' p = Some content \<and> exists f' p"
proof -
  from assms have p: "p \<noteq> []" and l: "last p \<noteq> ''..''"
    by (auto simp: write_text_def split: if_splits)
  with assms obtain d where d: "realpath f (butlast p) = Some d" and dir: "map_of f d = Some Dir"
    and nd: "map_of f (d @ [last p]) \<noteq> Some Dir"
    and f': "f' = AList.update (d @ [last p]) (File content) f"
    by (auto simp: write_text_def split: if_splits option.splits node.splits)
  let ?q = "d @ [last p]"
  have m': "map_of f' = (map_of f)(?q \<mapsto> File content)"
    by (simp add: f' update_conv')
  have "walk (map_of f') [] (butlast p) = Some d"
  proof (rule walk_mono)
    show "walk (map_of f) [] (butlast p) = Some d"
      using d by (simp add: realpath_def)
  next
    fix x assume "map_of f x = Some Dir"
    with nd show "map_of f' x = Some Dir"
      by (auto simp: m')
  next
    fix x assume "map_of f x \<noteq> None"
    then show "map_of f' x \<noteq> None"
      by (simp add: m')
  qed
  moreover from dir have "map_of f' d = Some Dir"
    by (simp add: m')
  moreover have "map_of f' ?q = Some (File content)"
    by (simp add: m')
  ultimately have "walk (map_of f') [] (butlast p @ [last p]) = Some ?q"
    using l by (simp add: walk_append Let_def)
  with p have "realpath f' p = Some ?q"
    by (simp add: realpath_def)
  then show ?thesis
    by (simp add: read_text_def exists_def m')
qed

lemma truediv_output_md: "truediv p ''output.md'' = p @ [''output.md'']"
  by (simp add: truediv_single)

lemma write_textD:
  assumes "write_text g p content = Some g'"
  shows "\<exists>d. realpath g (butlast p) = Some d \<and> map_of g d = Some Dir
             \<and> map_of g (d @ [last p]) \<noteq> Some Dir
             \<and> g' = AList.update (d @ [last p]) (File content) g"
    and "p \<noteq> []" and "last p \<noteq> ''..''"
  using assms by (auto simp: write_text_def split: if_splits option.splits node.splits)

text \<open>A write changes the volume at the written location only.\<close>

lemma write_text_frame:
  assumes w: "write_text g p content = Some g'" and d: "realpath g (butlast p) = Some dp"
    and q: "realpath g p2 = Some q2" and ne: "q2 \<noteq> dp @ [last p]"
  shows "realpath g' p2 = Some q2 \<and> map_of g' q2 = map_of g q2"
proof -
  from w d have nd: "map_of g (dp @ [last p]) \<noteq> Some Dir"
    and g': "g' = AList.update (dp @ [last p]) (File content) g"
    by (auto simp: write_text_def split: if_splits option.splits node.splits)
  have m': "map_of g' = (map_of g)(dp @ [last p] \<mapsto> File content)"
    by (simp add: g' update_conv')
  have "walk (map_of g') [] p2 = Some q2"
  proof (rule walk_mono)
    show "walk (map_of g) [] p2 = Some q2"
      using q by (simp add: realpath_def)
  next
    fix x assume "map_of g x = Some Dir"
    with nd show "map_of g' x = Some Dir"
      by (auto simp: m')
  next
    fix x assume "map_of g x \<noteq> None"
    then show "map_of g' x \<noteq> None"
      by (simp add: m')
  qed
  with ne show ?thesis
    by (simp add: realpath_def m')
qed

lemma mkdirs_extends:
  "mkdirs g cur p = Some g' \<Longrightarrow> map_of g x = Some n \<Longrightarrow> map_of g' x = Some n"
proof (induction p arbitrary: g cur)
  case Nil
  then show ?case by simp
next
  case (Cons s ss)
  let ?nxt = "if s = ''..'' then butlast cur else cur @ [s]"
  show ?case
  proof (cases "map_of g ?nxt")
    case None
    with Cons.prems(1) have m: "mkdirs (AList.update ?nxt Dir g) ?nxt ss = Some g'"
      by (simp add: Let_def split: if_splits)
    from None Cons.prems(2) have "x \<noteq> ?nxt"
      by auto
    with Cons.prems(2) have "map_of (AList.update ?nxt Dir g) x = Some n"
      by (simp add: update_conv')
    with m show ?thesis
      by (rule Cons.IH)
  next
    case (Some k)
    with Cons.prems(1) have "mkdirs g ?nxt ss = Some g'"
      by (cases k) (simp_all add: Let_def split: if_splits)
    then show ?thesis
      using Cons.prems(2) by (rule Cons.IH)
  qed
qed

lemma realpath_extends:
  assumes "\<And>x n. map_of g x = Some n \<Longrightarrow> map_of g' x = Some n" "realpath g p = Some q"
  shows "realpath g' p = Some q"
  unfolding realpath_def
proof (rule walk_mono)
  show "walk (map_of g) [] p = Some q"
    using assms(2) by (simp add: realpath_def)
next
  fix x assume "map_of g x = Some Dir"
  then show "map_of g' x = Some Dir"
    by (rule assms(1))
next
  fix x assume "map_of g x \<noteq> None"
  then obtain n where "map_of g x = Some n"
    by blast
  then have "map_of g' x = Some n"
    by (rule assms(1))
  then show "map_of g' x \<noteq> None"
    by simp
qed

text \<open>
  The pictures are written two levels below the directory of the Markdown file, so the
  Markdown file stays as the engine saved it.
\<close>

definition md_saved :: "fs \<Rightarrow> path \<Rightarrow> bytes \<Rightarrow> path \<Rightarrow> bool" where
  "md_saved g md_path md d \<longleftrightarrow>
     realpath g (butlast md_path) = Some d
     \<and> realpath g md_path = Some (d @ [last md_path])
     \<and> map_of g (d @ [last md_path]) = Some (File md)"

lemma write_files_keeps_md:
  assumes "write_files g (butlast md_path @ [''output_artifacts'']) pictures = Some g'"
    and "md_saved g md_path md d"
  shows "md_saved g' md_path md d"
  using assms
proof (induction pictures arbitrary: g)
  case Nil
  then show ?case by simp
next
  case (Cons x pictures)
  obtain name content where x: "x = (name, content)"
    by (cases x) auto
  let ?a = "butlast md_path @ [''output_artifacts'']"
  from Cons.prems(1) x obtain g1 where w: "write_text g (?a @ [name]) content = Some g1"
    and rest: "write_files g1 ?a pictures = Some g'"
    by (auto split: option.splits)
  from write_textD(1) [OF w] obtain da where "realpath g (butlast (?a @ [name])) = Some da"
    by blast
  then have da: "realpath g ?a = Some da"
    by (simp only: butlast_snoc)
  from Cons.prems(2) have b: "realpath g (butlast md_path) = Some d"
    and m: "realpath g md_path = Some (d @ [last md_path])"
    and c: "map_of g (d @ [last md_path]) = Some (File md)"
    by (simp_all add: md_saved_def)
  from da b have "da = d @ [''output_artifacts'']"
    by (auto simp: realpath_def walk_append Let_def split: if_splits)
  with da have da': "realpath g (butlast (?a @ [name])) = Some (d @ [''output_artifacts''])"
    by (simp only: butlast_snoc)
  have "realpath g1 (butlast md_path) = Some d \<and> map_of g1 d = map_of g d"
    by (rule write_text_frame [OF w da' b]) simp
  moreover have "realpath g1 md_path = Some (d @ [last md_path])
                 \<and> map_of g1 (d @ [last md_path]) = map_of g (d @ [last md_path])"
    by (rule write_text_frame [OF w da' m]) simp
  ultimately have "md_saved g1 md_path md d"
    using c by (simp add: md_saved_def)
  with rest show ?case
    by (rule Cons.IH)
qed

lemma save_as_markdown_keeps_md:
  assumes "save_as_markdown g md_path md pictures = Some g'"
  shows "read_text g' md_path = Some md"
proof -
  from assms obtain g1 where w: "write_text g md_path md = Some g1"
    by (auto simp: save_as_markdown_def split: option.splits)
  then have p: "md_path \<noteq> []" and l: "last md_path \<noteq> ''..''"
    by (auto simp: write_text_def split: if_splits)
  from w obtain d where d: "realpath g (butlast md_path) = Some d"
    and dir: "map_of g d = Some Dir"
    and nd: "map_of g (d @ [last md_path]) \<noteq> Some Dir"
    and g1: "g1 = AList.update (d @ [last md_path]) (File md) g"
    by (auto simp: write_text_def split: if_splits option.splits node.splits)
  have m1: "map_of g1 = (map_of g)(d @ [last md_path] \<mapsto> File md)"
    by (simp add: g1 update_conv')
  have b1: "walk (map_of g1) [] (butlast md_path) = Some d"
  proof (rule walk_mono)
    show "walk (map_of g) [] (butlast md_path) = Some d"
      using d by (simp add: realpath_def)
  next
    fix x assume "map_of g x = Some Dir"
    with nd show "map_of g1 x = Some Dir"
      by (auto simp: m1)
  next
    fix x assume "map_of g x \<noteq> None"
    then show "map_of g1 x \<noteq> None"
      by (simp add: m1)
  qed
  moreover from dir have "map_of g1 d = Some Dir"
    by (simp add: m1)
  ultimately have "walk (map_of g1) [] (butlast md_path @ [last md_path]) = Some (d @ [last md_path])"
    using l by (simp add: walk_append Let_def m1)
  with p b1 have s1: "md_saved g1 md_path md d"
    by (simp add: md_saved_def realpath_def m1)
  have "md_saved g' md_path md d"
  proof (cases "pictures = []")
    case True
    with assms w s1 show ?thesis
      by (simp add: save_as_markdown_def)
  next
    case False
    with assms w obtain g2 where
      mk: "mkdir_parents g1 (butlast md_path @ [''output_artifacts'']) = Some g2"
      and wf: "write_files g2 (butlast md_path @ [''output_artifacts'']) pictures = Some g'"
      by (auto simp: save_as_markdown_def split: option.splits)
    from mk have ext: "\<And>x n. map_of g1 x = Some n \<Longrightarrow> map_of g2 x = Some n"
      unfolding mkdir_parents_def by (rule mkdirs_extends)
    from s1 have "md_saved g2 md_path md d"
      unfolding md_saved_def using ext realpath_extends [of g1 g2] by blast
    with wf show ?thesis
      by (rule write_files_keeps_md)
  qed
  then show ?thesis
    by (simp add: md_saved_def read_text_def)
qed

text \<open>A conversion that reports success has left on the volume the Markdown of the engine
  after the substitution.\<close>

lemma convert_pdf_to_markdown_success:
  assumes "convert_pdf_to_markdown e root task_id pdf_bytes f = (f', True, title, err)"
  shows "task_has_markdown f' root task_id
       \<and> (\<exists>name md pictures.
             docling e (truediv (get_task_dir root task_id) ''output.md'') pdf_bytes
               = EngineDoc name md pictures
             \<and> get_markdown f' root task_id = Some (fix_image_paths task_id md))
       \<and> title \<noteq> None \<and> title \<noteq> Some [] \<and> err = None"
proof -
  let ?md_path = "truediv (get_task_dir root task_id) ''output.md''"
  from assms obtain f1 f2 md_content name md pictures where
    dl: "docling e ?md_path pdf_bytes = EngineDoc name md pictures"
    and sv: "save_as_markdown f1 ?md_path md pictures = Some f2"
    and rd: "read_text f2 ?md_path = Some md_content"
    and w: "write_text f2 ?md_path (fix_image_paths task_id md_content) = Some f'"
    and t: "title = Some (if name \<noteq> [] then name else ''Untitled'')" and e: "err = None"
    by (auto simp: convert_pdf_to_markdown_def Let_def
             split: sum.splits engine_result.splits option.splits)
  from save_as_markdown_keeps_md [OF sv] rd have "md_content = md"
    by simp
  with write_text_result [OF w] dl t e show ?thesis
    by (auto simp: task_has_markdown_def get_markdown_def Let_def)
qed


section \<open>Asset lookup (claim C1)\<close>

text \<open>A storage volume with two tasks; the second one has a primary output.\<close>

definition fs_two_tasks :: fs where
  "fs_two_tasks =
     [([], Dir), ([''srv''], Dir), ([''srv'', ''out''], Dir),
      ([''srv'', ''out'', ''t1''], Dir),
      ([''srv'', ''out'', ''t1'', ''output_artifacts''], Dir),
      ([''srv'', ''out'', ''t1'', ''output_artifacts'', ''a.png''], File ''PNG''),
      ([''srv'', ''out'', ''t2''], Dir),
      ([''srv'', ''out'', ''t2'', ''output.md''], File ''secret'')]"

text \<open>
  C1, as stated, fails: \<^verbatim>\<open>get_image_path\<close> joins the file name to the asset directory and
  asks only whether the result exists. For task \<^verbatim>\<open>t1\<close> and the file name
  \<^verbatim>\<open>../../t2/output.md\<close>, which has path separators and parent-directory segments, it
  returns a path, the route answers with it, and the path resolves to the primary output of
  task \<^verbatim>\<open>t2\<close>, outside the asset directory of \<^verbatim>\<open>t1\<close>.
\<close>

theorem get_image_path_traversal_counterexample:
  "CHR ''/'' \<in> set ''../../t2/output.md''
   \<and> ''..'' \<in> set (split_on CHR ''/'' ''../../t2/output.md'')
   \<and> get_image_path fs_two_tasks storage_root ''t1'' ''../../t2/output.md''
       = Some (storage_root @ [''t1'', ''output_artifacts'', ''..'', ''..'', ''t2'', ''output.md''])
   \<and> get_image fs_two_tasks storage_root ''t1'' ''../../t2/output.md''
       = Inr (storage_root @ [''t1'', ''output_artifacts'', ''..'', ''..'', ''t2'', ''output.md''],
              ''image/png'')
   \<and> realpath fs_two_tasks
        (storage_root @ [''t1'', ''output_artifacts'', ''..'', ''..'', ''t2'', ''output.md''])
       = Some (storage_root @ [''t2'', ''output.md''])
   \<and> \<not> prefix (assets_dir storage_root ''t1'') (storage_root @ [''t2'', ''output.md''])"
  by code_simp

text \<open>
  C1, amended: \<^verbatim>\<open>get_image_path\<close> returns absent exactly when the joined path does not
  exist. When the file name has no path separator and is not \<^verbatim>\<open>..\<close>, a returned path is
  the task's asset directory or the entry of that name directly inside it, both as written
  and after name resolution.
\<close>

theorem get_image_path_single_component:
  assumes "CHR ''/'' \<notin> set filename" and "filename \<noteq> ''..''"
  shows "(get_image_path f root task_id filename = None
            \<longleftrightarrow> \<not> exists f (truediv (assets_dir root task_id) filename))
       \<and> (\<forall>p. get_image_path f root task_id filename = Some p \<longrightarrow>
             (p = assets_dir root task_id \<or> p = assets_dir root task_id @ [filename])
           \<and> (\<exists>d. realpath f (assets_dir root task_id) = Some d
                  \<and> (realpath f p = Some d \<or> realpath f p = Some (d @ [filename]))))"
proof (intro conjI allI impI)
  show "get_image_path f root task_id filename = None
          \<longleftrightarrow> \<not> exists f (truediv (assets_dir root task_id) filename)"
    by (simp add: get_image_path_def assets_dir_def Let_def)
next
  fix p
  assume res: "get_image_path f root task_id filename = Some p"
  let ?a = "assets_dir root task_id"
  from res have p: "p = truediv ?a filename" and ex: "exists f p"
    by (auto simp: get_image_path_def assets_dir_def Let_def split: if_splits)
  show "p = ?a \<or> p = ?a @ [filename]"
    using p assms(1) by (simp add: truediv_single)
  show "\<exists>d. realpath f ?a = Some d \<and> (realpath f p = Some d \<or> realpath f p = Some (d @ [filename]))"
  proof (cases "filename = [] \<or> filename = ''.''")
    case True
    with p assms(1) have "p = ?a"
      by (simp add: truediv_single)
    with ex show ?thesis
      by (auto simp: exists_def)
  next
    case False
    with p assms(1) have pa: "p = ?a @ [filename]"
      by (simp add: truediv_single)
    from ex obtain q where q: "walk (map_of f) [] (?a @ [filename]) = Some q"
      by (auto simp: exists_def realpath_def pa)
    then obtain d where d: "walk (map_of f) [] ?a = Some d"
      and w: "walk (map_of f) d [filename] = Some q"
      by (auto simp: walk_append Option.bind_eq_Some_conv)
    from w assms(2) have "q = d @ [filename]"
      by (simp add: Let_def split: if_splits)
    with d q show ?thesis
      by (simp add: realpath_def pa)
  qed
qed

theorem get_image_path_single_component_witness:
  "CHR ''/'' \<notin> set ''a.png'' \<and> ''a.png'' \<noteq> ''..''
   \<and> get_image_path fs_two_tasks storage_root ''t1'' ''a.png''
       = Some (assets_dir storage_root ''t1'' @ [''a.png''])
   \<and> realpath fs_two_tasks (assets_dir storage_root ''t1'' @ [''a.png''])
       = Some (storage_root @ [''t1'', ''output_artifacts'', ''a.png''])"
proof -
  have h1: "CHR ''/'' \<notin> set ''a.png''" and h2: "''a.png'' \<noteq> ''..''"
    by simp_all
  have found: "get_image_path fs_two_tasks storage_root ''t1'' ''a.png'' \<noteq> None"
    by code_simp
  have not_dir: "get_image_path fs_two_tasks storage_root ''t1'' ''a.png''
                   \<noteq> Some (assets_dir storage_root ''t1'')"
    by code_simp
  have rp: "realpath fs_two_tasks (assets_dir storage_root ''t1'' @ [''a.png''])
              = Some (storage_root @ [''t1'', ''output_artifacts'', ''a.png''])"
    by code_simp
  from get_image_path_single_component [OF h1 h2, of fs_two_tasks storage_root "''t1''"]
       found not_dir
  have "get_image_path fs_two_tasks storage_root ''t1'' ''a.png''
          = Some (assets_dir storage_root ''t1'' @ [''a.png''])"
    by auto
  with h1 h2 rp show ?thesis
    by simp
qed

section \<open>Rejected submissions (claim C8)\<close>

text \<open>
  C8: a submission whose file name is missing or does not end in \<^verbatim>\<open>.pdf\<close> (compared in
  lower case, as the route does), or whose content is empty, is answered with HTTP 400, and
  the state of the service (registry, volume, background tasks) is the one before the call.
\<close>

theorem convert_pdf_rejects_invalid_input:
  assumes "(case filename of None \<Rightarrow> True | Some n \<Rightarrow> \<not> endswith (lower n) ''.pdf'')
           \<or> pdf_bytes = []"
  shows "\<exists>detail. convert_pdf e root uuid filename pdf_bytes s
           = (Inl (HTTPException 400 detail), s)"
proof (cases "case filename of None \<Rightarrow> True | Some n \<Rightarrow> n = [] \<or> \<not> endswith (lower n) ''.pdf''")
  case True
  then show ?thesis
    by (simp add: convert_pdf_def)
next
  case False
  then have "\<not> (case filename of None \<Rightarrow> True | Some n \<Rightarrow> \<not> endswith (lower n) ''.pdf'')"
    by (auto split: option.splits)
  with assms have "pdf_bytes = []"
    by simp
  with False show ?thesis
    by (simp add: convert_pdf_def)
qed

theorem convert_pdf_rejects_invalid_input_witness:
  "(case Some ''notes.txt'' of None \<Rightarrow> True | Some n \<Rightarrow> \<not> endswith (lower n) ''.pdf'')
   \<and> convert_pdf example_env storage_root ''t1'' (Some ''notes.txt'') ''0123456789''
         (init_sys empty_volume 100)
       = (Inl (HTTPException 400 ''Only PDF files are accepted''), init_sys empty_volume 100)
   \<and> reg (snd (convert_pdf example_env storage_root ''t1'' (Some ''notes.txt'') ''0123456789''
         (init_sys empty_volume 100))) = init_db"
proof -
  have h: "case Some ''notes.txt'' of None \<Rightarrow> True | Some n \<Rightarrow> \<not> endswith (lower n) ''.pdf''"
    by code_simp
  then have "(case Some ''notes.txt'' of None \<Rightarrow> True | Some n \<Rightarrow> \<not> endswith (lower n) ''.pdf'')
             \<or> ''0123456789'' = []"
    by (rule disjI1)
  from convert_pdf_rejects_invalid_input [OF this, of example_env storage_root "''t1''"
         "init_sys empty_volume 100"]
  obtain detail where d: "convert_pdf example_env storage_root ''t1'' (Some ''notes.txt'')
         ''0123456789'' (init_sys empty_volume 100)
       = (Inl (HTTPException 400 detail), init_sys empty_volume 100)"
    by blast
  have "fst (convert_pdf example_env storage_root ''t1'' (Some ''notes.txt'') ''0123456789''
         (init_sys empty_volume 100)) = Inl (HTTPException 400 ''Only PDF files are accepted'')"
    by code_simp
  with d have "detail = ''Only PDF files are accepted''"
    by simp
  with d h show ?thesis
    by (simp add: init_sys_def)
qed

section \<open>Pruning (claim C9)\<close>

text \<open>
  C9: \<^verbatim>\<open>delete_old_tasks\<close> leaves the cache table as it is, removes no task row other than
  rows created before the bound (now minus the given number of days), keeps no row created
  before the bound when the number of days is not negative, and returns the number of
  rows it removed.
\<close>

theorem delete_old_tasks_frame:
  "cache (fst (delete_old_tasks days now r)) = cache r
   \<and> cache_seq (fst (delete_old_tasks days now r)) = cache_seq r
   \<and> set (tasks (fst (delete_old_tasks days now r))) \<subseteq> set (tasks r)
   \<and> (\<forall>t \<in> set (tasks r). t \<notin> set (tasks (fst (delete_old_tasks days now r)))
          \<longrightarrow> t_created_at t < now - days * 86400)
   \<and> (0 \<le> days \<longrightarrow> (\<forall>t \<in> set (tasks (fst (delete_old_tasks days now r))).
                         \<not> t_created_at t < now - days * 86400))
   \<and> snd (delete_old_tasks days now r)
       = length (tasks r) - length (tasks (fst (delete_old_tasks days now r)))"
  by (auto simp: delete_old_tasks_def Let_def)

text \<open>
  A registry with a task from day 0 and a task from day 9, and cache entries for both; on
  day 10 the tasks older than seven days are pruned.
\<close>

definition registry_two_ages :: registry where
  "registry_two_ages =
     \<lparr>tasks =
        [\<lparr>t_id = ''old'', t_status = ''done'', t_format = ''markdown'', t_title = Some ''Old'',
          t_output_path = Some ''/srv/out/old'', t_error_message = None, t_created_at = 0,
          t_completed_at = Some 60\<rparr>,
         \<lparr>t_id = ''new'', t_status = ''done'', t_format = ''markdown'', t_title = Some ''New'',
          t_output_path = Some ''/srv/out/new'', t_error_message = None,
          t_created_at = 777600, t_completed_at = Some 777660\<rparr>],
      cache =
        [\<lparr>c_id = 1, c_title = ''Old'', c_format = ''markdown'', c_output_path = ''old'',
          c_created_at = 60\<rparr>,
         \<lparr>c_id = 2, c_title = ''New'', c_format = ''markdown'', c_output_path = ''new'',
          c_created_at = 777660\<rparr>],
      cache_seq = 2\<rparr>"

theorem delete_old_tasks_frame_witness:
  "map t_id (tasks (fst (delete_old_tasks 7 864000 registry_two_ages))) = [''new'']
   \<and> snd (delete_old_tasks 7 864000 registry_two_ages) = 1
   \<and> map c_output_path (cache (fst (delete_old_tasks 7 864000 registry_two_ages)))
       = [''old'', ''new'']
   \<and> cache (fst (delete_old_tasks 7 864000 registry_two_ages)) = cache registry_two_ages"
proof -
  have 1: "map t_id (tasks (fst (delete_old_tasks 7 864000 registry_two_ages))) = [''new'']"
    by (simp add: delete_old_tasks_def registry_two_ages_def)
  have 2: "snd (delete_old_tasks 7 864000 registry_two_ages) = 1"
    by (simp add: delete_old_tasks_def registry_two_ages_def)
  have 3: "map c_output_path (cache registry_two_ages) = [''old'', ''new'']"
    by (simp add: registry_two_ages_def)
  from delete_old_tasks_frame [of 7 864000 registry_two_ages]
  have 4: "cache (fst (delete_old_tasks 7 864000 registry_two_ages)) = cache registry_two_ages"
    by blast
  from 1 2 3 4 show ?thesis
    by simp
qed

section \<open>Content fingerprint (claim C10)\<close>

lemma hex_digit_inj:
  assumes "m < 16" "n < 16" "hex_digit m = hex_digit n"
  shows "m = n"
proof -
  have d: "distinct ''0123456789abcdef''"
    by simp
  from assms have "''0123456789abcdef'' ! m = ''0123456789abcdef'' ! n"
    by (simp add: hex_digit_def)
  with assms(1,2) show ?thesis
    using nth_eq_iff_index_eq [OF d, of m n] by simp
qed

lemma hex_byte_inj:
  assumes "hex_byte a = hex_byte b"
  shows "a = b"
proof -
  have lt: "(of_char c :: nat) div 16 < 16" for c :: char
  proof -
    have "(of_char c :: nat) < 16 * 16"
      using nat_of_char_less_256 [of c] by simp
    then show ?thesis
      by (rule less_mult_imp_div_less)
  qed
  have lt': "(of_char c :: nat) mod 16 < 16" for c :: char
    by simp
  from assms have hi: "hex_digit (of_char a div 16) = hex_digit (of_char b div 16)"
    and lo: "hex_digit (of_char a mod 16) = hex_digit (of_char b mod 16)"
    by (simp_all add: hex_byte_def)
  have d: "(of_char a :: nat) div 16 = of_char b div 16"
    by (rule hex_digit_inj [OF lt lt hi])
  have m: "(of_char a :: nat) mod 16 = of_char b mod 16"
    by (rule hex_digit_inj [OF lt' lt' lo])
  have "(of_char a :: nat) = of_char a div 16 * 16 + of_char a mod 16"
    by simp
  also have "\<dots> = of_char b div 16 * 16 + of_char b mod 16"
    by (simp only: d m)
  also have "\<dots> = of_char b"
    by simp
  finally show ?thesis
    by simp
qed

lemma hexdigest_Cons: "hexdigest (b # bs) = hex_byte b @ hexdigest bs"
  by (simp add: hexdigest_def)

lemma length_hexdigest: "length (hexdigest bs) = 2 * length bs"
  by (induction bs) (simp_all add: hexdigest_def hex_byte_def)

lemma take_hexdigest: "take (2 * n) (hexdigest bs) = hexdigest (take n bs)"
proof (induction bs arbitrary: n)
  case Nil
  then show ?case by (simp add: hexdigest_def)
next
  case (Cons b bs)
  show ?case
  proof (cases n)
    case 0
    then show ?thesis by (simp add: hexdigest_def)
  next
    case (Suc k)
    have "take (2 * Suc k) (hex_byte b @ hexdigest bs) = hex_byte b @ take (2 * k) (hexdigest bs)"
      by (simp add: hex_byte_def)
    with Cons.IH [of k] Suc show ?thesis
      by (simp add: hexdigest_Cons)
  qed
qed

lemma hexdigest_inj:
  assumes "hexdigest xs = hexdigest ys"
  shows "xs = ys"
  using assms
proof (induction xs arbitrary: ys)
  case Nil
  then have "length (hexdigest ys) = 0"
    by (simp add: hexdigest_def)
  then show ?case
    by (simp add: length_hexdigest)
next
  case (Cons x xs)
  from Cons.prems have "length (hexdigest ys) = length (hexdigest (x # xs))"
    by simp
  then obtain y ys' where ys: "ys = y # ys'"
    by (cases ys) (simp_all add: length_hexdigest)
  from Cons.prems ys have "hex_byte x @ hexdigest xs = hex_byte y @ hexdigest ys'"
    by (simp add: hexdigest_Cons)
  moreover have "length (hex_byte x) = length (hex_byte y)"
    by (simp add: hex_byte_def)
  ultimately have "hex_byte x = hex_byte y" and "hexdigest xs = hexdigest ys'"
    by simp_all
  with Cons.IH ys show ?case
    by (simp add: hex_byte_inj)
qed

lemma hex_digit_in_alphabet: "hex_digit n \<in> set ''0123456789abcdef''"
proof -
  have "n mod 16 < length ''0123456789abcdef''"
    by simp
  then show ?thesis
    unfolding hex_digit_def by (rule nth_mem)
qed

lemma hexdigest_alphabet: "set (hexdigest bs) \<subseteq> set ''0123456789abcdef''"
proof (induction bs)
  case Nil
  then show ?case by (simp add: hexdigest_def)
next
  case (Cons b bs)
  have "set (hex_byte b) \<subseteq> set ''0123456789abcdef''"
    using hex_digit_in_alphabet by (simp add: hex_byte_def)
  with Cons show ?case
    by (simp add: hexdigest_Cons)
qed

text \<open>
  C10: \<^verbatim>\<open>get_pdf_hash\<close> is a function of the bytes alone. For a digest of 32 bytes its
  value is the hexadecimal form of the first 8 bytes of the digest: 16 characters, all
  hexadecimal digits. Two contents get the same fingerprint exactly when the first 8 bytes
  (64 bits) of their digests agree; identical contents do.
\<close>

theorem get_pdf_hash_first_64_bits:
  assumes "length (sha256 e pdf_bytes) = 32"
  shows "get_pdf_hash e pdf_bytes = hexdigest (take 8 (sha256 e pdf_bytes))
       \<and> get_pdf_hash e pdf_bytes = take 16 (hexdigest (sha256 e pdf_bytes))
       \<and> length (get_pdf_hash e pdf_bytes) = 16
       \<and> set (get_pdf_hash e pdf_bytes) \<subseteq> set ''0123456789abcdef''
       \<and> (length (sha256 e other) = 32 \<longrightarrow>
            (get_pdf_hash e pdf_bytes = get_pdf_hash e other
               \<longleftrightarrow> take 8 (sha256 e pdf_bytes) = take 8 (sha256 e other)))"
proof -
  have eq: "\<And>b. get_pdf_hash e b = hexdigest (take 8 (sha256 e b))"
    using take_hexdigest [of 8] by (simp add: get_pdf_hash_def)
  have "length (get_pdf_hash e pdf_bytes) = 16"
    using assms by (simp add: eq length_hexdigest)
  moreover have "set (get_pdf_hash e pdf_bytes) \<subseteq> set ''0123456789abcdef''"
    unfolding eq by (rule hexdigest_alphabet)
  moreover have "get_pdf_hash e pdf_bytes = get_pdf_hash e other
                   \<longleftrightarrow> take 8 (sha256 e pdf_bytes) = take 8 (sha256 e other)"
    unfolding eq by (auto dest: hexdigest_inj)
  ultimately show ?thesis
    by (simp add: eq [symmetric]) (simp add: get_pdf_hash_def)
qed

theorem get_pdf_hash_first_64_bits_witness:
  "length (sha256 example_env ''%PDF-A'') = 32
   \<and> get_pdf_hash example_env ''%PDF-A'' = ''48f6ee2d23f683b6''
   \<and> length (get_pdf_hash example_env ''%PDF-A'') = 16
   \<and> get_pdf_hash example_env ''%PDF-A'' \<noteq> get_pdf_hash example_env ''%PDF-B''"
proof -
  have len: "length (sha256 example_env ''%PDF-A'') = 32"
    and len': "length (sha256 example_env ''%PDF-B'') = 32"
    by code_simp+
  have val: "hexdigest (take 8 (sha256 example_env ''%PDF-A'')) = ''48f6ee2d23f683b6''"
    by code_simp
  have diff: "take 8 (sha256 example_env ''%PDF-A'') \<noteq> take 8 (sha256 example_env ''%PDF-B'')"
    by code_simp
  note th = get_pdf_hash_first_64_bits [OF len, of "''%PDF-B''"]
  from th val have 1: "get_pdf_hash example_env ''%PDF-A'' = ''48f6ee2d23f683b6''"
    by simp
  from th have 2: "length (get_pdf_hash example_env ''%PDF-A'') = 16"
    by blast
  from th len' diff
  have 3: "get_pdf_hash example_env ''%PDF-A'' \<noteq> get_pdf_hash example_env ''%PDF-B''"
    by blast
  from len 1 2 3 show ?thesis
    by blast
qed


section \<open>Rewriting asset references to the API form (claim C2)\<close>

text \<open>
  Text in which the substitution of the adapter finds nothing: \<open>no_artifact_ref\<close> says
  that the pattern matches at no position. \<open>inert_md\<close> says more, as needed for text that
  stands before a reference: every \<^verbatim>\<open>](\<close> in it is closed by a parenthesis inside the
  text, and what it encloses is not an artifact path. (An unclosed \<^verbatim>\<open>](\<close> before a
  reference would begin a longer match that swallows the reference.)
\<close>

fun no_artifact_ref :: "string \<Rightarrow> bool" where
  "no_artifact_ref [] = True"
| "no_artifact_ref (c # cs) = (match_artifact_ref (c # cs) = None \<and> no_artifact_ref cs)"

fun inert_md :: "string \<Rightarrow> bool" where
  "inert_md [] = True"
| "inert_md (c # cs) =
     ((case strip_prefix '']('' (c # cs) of
         None \<Rightarrow> True
       | Some t \<Rightarrow> (case span_until CHR '')'' t of
                     None \<Rightarrow> False
                   | Some (p, r) \<Rightarrow> \<not> artifact_path p))
      \<and> inert_md cs)"

text \<open>A document: pieces of inert text, each followed by a reference to
  \<^verbatim>\<open>a/output_artifacts/b\<close>, and a tail without references.\<close>

definition md_with_artifact_refs :: "(string \<times> string \<times> string) list \<Rightarrow> string \<Rightarrow> string" where
  "md_with_artifact_refs refs tail =
     concat (map (\<lambda>(pre, a, b). pre @ '']('' @ a @ ''/output_artifacts/'' @ b @ '')'') refs) @ tail"

definition md_with_api_refs :: "string \<Rightarrow> (string \<times> string \<times> string) list \<Rightarrow> string \<Rightarrow> string" where
  "md_with_api_refs task_id refs tail =
     concat (map (\<lambda>(pre, a, b).
        pre @ ''](/api/images/'' @ task_id @ ''/'' @ last (split_on CHR ''/'' b) @ '')'') refs) @ tail"

lemma marker_inside_append:
  "b \<noteq> [] \<Longrightarrow> marker_inside (a @ ''/output_artifacts/'' @ b)"
proof (induction a)
  case Nil
  then show ?case
    by (cases b) (simp_all add: strip_prefix_def)
next
  case (Cons x a)
  then show ?case
    by (auto split: option.splits list.splits)
qed

lemma artifact_path_append:
  assumes "a \<noteq> []" "b \<noteq> []"
  shows "artifact_path (a @ ''/output_artifacts/'' @ b)"
proof -
  from assms(1) obtain x a' where a: "a = x # a'"
    by (cases a) auto
  from marker_inside_append [OF assms(2), of a'] show ?thesis
    by (simp add: artifact_path_def a)
qed

lemma marker_insideD:
  "marker_inside s \<Longrightarrow> \<exists>a b. b \<noteq> [] \<and> s = a @ ''/output_artifacts/'' @ b"
proof (induction s)
  case Nil
  then show ?case by simp
next
  case (Cons c cs)
  show ?case
  proof (cases "strip_prefix ''/output_artifacts/'' (c # cs)")
    case None
    with Cons.prems have "marker_inside cs"
      by simp
    with Cons.IH obtain a b where "b \<noteq> []" "cs = a @ ''/output_artifacts/'' @ b"
      by blast
    then have "b \<noteq> [] \<and> c # cs = (c # a) @ ''/output_artifacts/'' @ b"
      by simp
    then show ?thesis
      by blast
  next
    case (Some t)
    show ?thesis
    proof (cases t)
      case Nil
      with Some Cons.prems have "marker_inside cs"
        by simp
      with Cons.IH obtain a b where "b \<noteq> []" "cs = a @ ''/output_artifacts/'' @ b"
        by blast
      then have "b \<noteq> [] \<and> c # cs = (c # a) @ ''/output_artifacts/'' @ b"
        by simp
      then show ?thesis
        by blast
    next
      case (Cons b bs)
      from Some have "c # cs = ''/output_artifacts/'' @ t"
        by (rule strip_prefix_SomeD)
      with Cons have "b # bs \<noteq> [] \<and> c # cs = [] @ ''/output_artifacts/'' @ (b # bs)"
        by simp
      then show ?thesis
        by blast
    qed
  qed
qed

lemma artifact_path_iff:
  "artifact_path p \<longleftrightarrow> (\<exists>a b. a \<noteq> [] \<and> b \<noteq> [] \<and> p = a @ ''/output_artifacts/'' @ b)"
proof
  assume "artifact_path p"
  then obtain x r where p: "p = x # r" and "marker_inside r"
    by (auto simp: artifact_path_def split: list.splits)
  then obtain a b where "b \<noteq> []" "r = a @ ''/output_artifacts/'' @ b"
    by (blast dest: marker_insideD)
  with p have "x # a \<noteq> [] \<and> b \<noteq> [] \<and> p = (x # a) @ ''/output_artifacts/'' @ b"
    by simp
  then show "\<exists>a b. a \<noteq> [] \<and> b \<noteq> [] \<and> p = a @ ''/output_artifacts/'' @ b"
    by blast
next
  assume "\<exists>a b. a \<noteq> [] \<and> b \<noteq> [] \<and> p = a @ ''/output_artifacts/'' @ b"
  then obtain a b where a: "a \<noteq> []" and b: "b \<noteq> []"
    and p: "p = a @ ''/output_artifacts/'' @ b"
    by blast
  from a b have "artifact_path (a @ ''/output_artifacts/'' @ b)"
    by (rule artifact_path_append)
  then show "artifact_path p"
    by (simp only: p)
qed

lemma match_artifact_refI:
  assumes "CHR '')'' \<notin> set p" "artifact_path p"
  shows "match_artifact_ref ('']('' @ p @ '')'' @ rest) = Some (p, rest)"
  using assms by (simp add: match_artifact_ref_def strip_prefix_def span_until_append)

lemma span_until_extend:
  "span_until d t = Some (p, r) \<Longrightarrow> span_until d (t @ rest) = Some (p, r @ rest)"
  by (auto dest!: span_until_SomeD simp: span_until_append)

lemma strip_prefix_extend:
  "strip_prefix l t = Some r \<Longrightarrow> strip_prefix l (t @ rest) = Some (r @ rest)"
  by (auto simp: strip_prefix_def prefix_def split: if_splits)

lemma prefix_straddle:
  assumes "prefix l (t @ rest)" "\<not> prefix l t"
  shows "rest \<noteq> [] \<and> hd rest \<in> set l"
proof -
  from assms obtain us where l: "l = t @ us" and us: "prefix us rest"
    by (auto simp: prefix_append)
  from l assms(2) have "us \<noteq> []"
    by auto
  then obtain u us' where u: "us = u # us'"
    by (cases us) auto
  with us obtain rest' where "rest = u # rest'"
    by (cases rest) auto
  with l u show ?thesis
    by simp
qed

lemma strip_prefix_extend_None:
  assumes "strip_prefix l t = None" "rest = [] \<or> hd rest \<notin> set l"
  shows "strip_prefix l (t @ rest) = None"
  using assms prefix_straddle [of l t rest] by (auto simp: strip_prefix_def split: if_splits)

lemma inert_md_no_match:
  assumes "inert_md (c # cs)" "rest = [] \<or> hd rest \<noteq> CHR ''(''"
  shows "match_artifact_ref ((c # cs) @ rest) = None"
proof (cases "strip_prefix '']('' (c # cs)")
  case None
  show ?thesis
  proof (cases "c = CHR '']'' \<and> cs = []")
    case True
    with assms(2) show ?thesis
      by (cases rest) (auto simp: match_artifact_ref_def strip_prefix_def)
  next
    case False
    with None have "strip_prefix '']('' ((c # cs) @ rest) = None"
      by (cases cs) (auto simp: strip_prefix_def split: if_splits)
    then show ?thesis
      by (simp add: match_artifact_ref_def)
  qed
next
  case (Some t)
  with assms(1) obtain p r where sp: "span_until CHR '')'' t = Some (p, r)"
    and np: "\<not> artifact_path p"
    by (auto split: option.splits)
  from Some have "strip_prefix '']('' ((c # cs) @ rest) = Some (t @ rest)"
    by (rule strip_prefix_extend)
  moreover from sp have "span_until CHR '')'' (t @ rest) = Some (p, r @ rest)"
    by (rule span_until_extend)
  ultimately show ?thesis
    using np by (simp add: match_artifact_ref_def)
qed

lemma fix_image_paths_skip:
  assumes "inert_md pre" "rest = [] \<or> hd rest \<noteq> CHR ''(''"
  shows "fix_image_paths task_id (pre @ rest) = pre @ fix_image_paths task_id rest"
  using assms(1)
proof (induction pre)
  case Nil
  then show ?case by simp
next
  case (Cons c cs)
  from Cons.prems assms(2) have "match_artifact_ref ((c # cs) @ rest) = None"
    by (rule inert_md_no_match)
  moreover from Cons have "fix_image_paths task_id (cs @ rest) = cs @ fix_image_paths task_id rest"
    by simp
  ultimately show ?case
    by simp
qed

lemma fix_image_paths_no_ref:
  "no_artifact_ref s \<Longrightarrow> fix_image_paths task_id s = s"
  by (induction s) auto

lemma length_split_on: "length (split_on d s) = Suc (length (filter (\<lambda>c. c = d) s))"
  by (induction s) (auto split: list.splits)

lemma last_split_on_append:
  "last (split_on d (xs @ d # ys)) = last (split_on d ys)"
proof (induction xs)
  case Nil
  have "split_on d ys \<noteq> []"
    using length_split_on [of d ys] by auto
  then show ?case
    by (auto split: list.splits)
next
  case (Cons x xs)
  have "2 \<le> length (split_on d (xs @ d # ys))"
    by (simp add: length_split_on)
  then obtain w w' ws where "split_on d (xs @ d # ys) = w # w' # ws"
    by (cases "split_on d (xs @ d # ys)" rule: remdups_adj.cases) auto
  with Cons show ?case
    by auto
qed

lemma fix_image_paths_reference:
  assumes "a \<noteq> []" "b \<noteq> []" "CHR '')'' \<notin> set (a @ b)"
  shows "fix_image_paths task_id ('']('' @ a @ ''/output_artifacts/'' @ b @ '')'' @ rest)
           = ''](/api/images/'' @ task_id @ ''/'' @ last (split_on CHR ''/'' b) @ '')''
             @ fix_image_paths task_id rest"
proof -
  let ?p = "a @ ''/output_artifacts/'' @ b"
  from assms(3) have "CHR '')'' \<notin> set ?p"
    by simp
  moreover from assms(1,2) have "artifact_path ?p"
    by (rule artifact_path_append)
  ultimately have "CHR '')'' \<notin> set ?p" and "artifact_path ?p"
    by blast+
  then have m: "match_artifact_ref ('']('' @ ?p @ '')'' @ rest) = Some (?p, rest)"
    by (rule match_artifact_refI)
  have "last (split_on CHR ''/'' ?p) = last (split_on CHR ''/'' b)"
    using last_split_on_append [of "CHR ''/''" "a @ ''/output_artifacts''" b] by simp
  with m show ?thesis
    by (simp add: replace_image_path_def)
qed

text \<open>
  C2, as stated, fails on the literal form: the adapter writes
  \<^verbatim>\<open>/api/images/{task_id}/{filename}\<close>, the path under which the route serves the
  file, and not \<^verbatim>\<open>/assets/{task_id}/{filename}\<close>.
\<close>

theorem fix_image_paths_assets_counterexample:
  "fix_image_paths ''t1'' ''![Image](/srv/out/t1/output_artifacts/a.png)''
     = ''![Image](/api/images/t1/a.png)''
   \<and> fix_image_paths ''t1'' ''![Image](/srv/out/t1/output_artifacts/a.png)''
     \<noteq> ''![Image](/assets/t1/a.png)''"
  by code_simp

lemma fix_image_paths_refs:
  assumes "\<forall>(pre, a, b) \<in> set refs. inert_md pre \<and> a \<noteq> [] \<and> b \<noteq> [] \<and> CHR '')'' \<notin> set (a @ b)"
    and "no_artifact_ref tail"
  shows "fix_image_paths task_id (md_with_artifact_refs refs tail)
           = md_with_api_refs task_id refs tail"
  using assms(1)
proof (induction refs)
  case Nil
  from assms(2) show ?case
    by (simp add: md_with_artifact_refs_def md_with_api_refs_def fix_image_paths_no_ref)
next
  case (Cons x refs)
  obtain pre a b where x: "x = (pre, a, b)"
    by (cases x) auto
  from Cons.prems x have pre: "inert_md pre" and ab: "a \<noteq> []" "b \<noteq> []" "CHR '')'' \<notin> set (a @ b)"
    by auto
  let ?rest = "md_with_artifact_refs refs tail"
  from Cons have IH: "fix_image_paths task_id ?rest = md_with_api_refs task_id refs tail"
    by simp
  have "md_with_artifact_refs (x # refs) tail
          = pre @ ('']('' @ a @ ''/output_artifacts/'' @ b @ '')'' @ ?rest)"
    by (simp add: md_with_artifact_refs_def x)
  moreover have "fix_image_paths task_id (pre @ ('']('' @ a @ ''/output_artifacts/'' @ b @ '')'' @ ?rest))
          = pre @ fix_image_paths task_id ('']('' @ a @ ''/output_artifacts/'' @ b @ '')'' @ ?rest)"
    by (rule fix_image_paths_skip [OF pre]) simp
  ultimately show ?case
    using fix_image_paths_reference [OF ab, of task_id ?rest] IH
    by (simp add: md_with_api_refs_def x)
qed

text \<open>
  C2, amended: in a document made of inert text and references
  \<^verbatim>\<open>](a/output_artifacts/b)\<close> (\<open>a\<close> and \<open>b\<close> not empty, no closing parenthesis inside),
  the substitution of the adapter rewrites every reference to
  \<^verbatim>\<open>](/api/images/{task_id}/{filename})\<close>, where the file name is the last
  \<^verbatim>\<open>/\<close>-separated segment of the reference, and changes nothing else; and when a
  conversion succeeds on such a document of the engine, the rewritten document is the
  task's Markdown file.
\<close>

theorem conversion_rewrites_every_reference:
  assumes "\<forall>(pre, a, b) \<in> set refs. inert_md pre \<and> a \<noteq> [] \<and> b \<noteq> [] \<and> CHR '')'' \<notin> set (a @ b)"
    and "no_artifact_ref tail"
  shows "fix_image_paths task_id (md_with_artifact_refs refs tail)
           = md_with_api_refs task_id refs tail
       \<and> (convert_pdf_to_markdown e root task_id pdf_bytes f = (f', True, title, err)
            \<and> docling e (truediv (get_task_dir root task_id) ''output.md'') pdf_bytes
                = EngineDoc name (md_with_artifact_refs refs tail) pictures
          \<longrightarrow> get_markdown f' root task_id = Some (md_with_api_refs task_id refs tail))"
proof (intro conjI impI)
  show r: "fix_image_paths task_id (md_with_artifact_refs refs tail)
             = md_with_api_refs task_id refs tail"
    using assms by (rule fix_image_paths_refs)
  assume c: "convert_pdf_to_markdown e root task_id pdf_bytes f = (f', True, title, err)
            \<and> docling e (truediv (get_task_dir root task_id) ''output.md'') pdf_bytes
                = EngineDoc name (md_with_artifact_refs refs tail) pictures"
  then obtain name' md pictures' where
    "docling e (truediv (get_task_dir root task_id) ''output.md'') pdf_bytes
       = EngineDoc name' md pictures'"
    and g: "get_markdown f' root task_id = Some (fix_image_paths task_id md)"
    using convert_pdf_to_markdown_success [of e root task_id pdf_bytes f f' title err] by blast
  with c have "md = md_with_artifact_refs refs tail"
    by simp
  with g r show "get_markdown f' root task_id = Some (md_with_api_refs task_id refs tail)"
    by simp
qed

theorem conversion_rewrites_every_reference_witness:
  "fix_image_paths ''t1''
     (md_with_artifact_refs
        [(''# T [l](http://x) ![A'', ''/srv/out/t1'', ''a.png''), ('' ![B'', ''/o'', ''p/b.png'')]
        '' end'')
     = ''# T [l](http://x) ![A](/api/images/t1/a.png) ![B](/api/images/t1/b.png) end''
   \<and> docling example_env (truediv (get_task_dir storage_root ''t1'') ''output.md'') ''%PDF-A''
       = EngineDoc ''document''
           (md_with_artifact_refs [(''![Image'', ''/srv/out/t1'', ''a.png'')] [])
           [(''a.png'', ''PNG'')]
   \<and> snd (convert_pdf_to_markdown example_env storage_root ''t1'' ''%PDF-A'' empty_volume)
       = (True, Some ''document'', None)
   \<and> get_markdown
        (fst (convert_pdf_to_markdown example_env storage_root ''t1'' ''%PDF-A'' empty_volume))
        storage_root ''t1''
       = Some ''![Image](/api/images/t1/a.png)''"
proof -
  have h1: "\<forall>(pre, a, b) \<in> set [(''# T [l](http://x) ![A'', ''/srv/out/t1'', ''a.png''),
                                   ('' ![B'', ''/o'', ''p/b.png'')].
              inert_md pre \<and> a \<noteq> [] \<and> b \<noteq> [] \<and> CHR '')'' \<notin> set (a @ b)"
    by code_simp
  have h2: "no_artifact_ref '' end''"
    by code_simp
  have v1: "md_with_api_refs ''t1''
          [(''# T [l](http://x) ![A'', ''/srv/out/t1'', ''a.png''), ('' ![B'', ''/o'', ''p/b.png'')]
          '' end''
        = ''# T [l](http://x) ![A](/api/images/t1/a.png) ![B](/api/images/t1/b.png) end''"
    by code_simp
  have k1: "\<forall>(pre, a, b) \<in> set [(''![Image'', ''/srv/out/t1'', ''a.png'')].
              inert_md pre \<and> a \<noteq> [] \<and> b \<noteq> [] \<and> CHR '')'' \<notin> set (a @ b)"
    by code_simp
  have k2: "no_artifact_ref []"
    by simp
  have dl: "docling example_env (truediv (get_task_dir storage_root ''t1'') ''output.md'') ''%PDF-A''
       = EngineDoc ''document''
           (md_with_artifact_refs [(''![Image'', ''/srv/out/t1'', ''a.png'')] [])
           [(''a.png'', ''PNG'')]"
    by code_simp
  have res: "snd (convert_pdf_to_markdown example_env storage_root ''t1'' ''%PDF-A'' empty_volume)
       = (True, Some ''document'', None)"
    by code_simp
  then have cv: "convert_pdf_to_markdown example_env storage_root ''t1'' ''%PDF-A'' empty_volume
       = (fst (convert_pdf_to_markdown example_env storage_root ''t1'' ''%PDF-A'' empty_volume),
          True, Some ''document'', None)"
    by (metis prod.collapse)
  have v2: "md_with_api_refs ''t1'' [(''![Image'', ''/srv/out/t1'', ''a.png'')] []
              = ''![Image](/api/images/t1/a.png)''"
    by code_simp
  from conversion_rewrites_every_reference [OF h1 h2, of "''t1''"] v1
  have 1: "fix_image_paths ''t1''
     (md_with_artifact_refs
        [(''# T [l](http://x) ![A'', ''/srv/out/t1'', ''a.png''), ('' ![B'', ''/o'', ''p/b.png'')]
        '' end'')
     = ''# T [l](http://x) ![A](/api/images/t1/a.png) ![B](/api/images/t1/b.png) end''"
    by simp
  from conversion_rewrites_every_reference [OF k1 k2, of "''t1''" example_env storage_root
         "''%PDF-A''" empty_volume
         "fst (convert_pdf_to_markdown example_env storage_root ''t1'' ''%PDF-A'' empty_volume)"
         "Some ''document''" None "''document''" "[(''a.png'', ''PNG'')]"] cv dl v2
  have 2: "get_markdown
        (fst (convert_pdf_to_markdown example_env storage_root ''t1'' ''%PDF-A'' empty_volume))
        storage_root ''t1''
       = Some ''![Image](/api/images/t1/a.png)''"
    by simp
  from 1 dl res 2 show ?thesis
    by blast
qed

section \<open>Cache hits on resubmission (claims C3 and C4)\<close>

lemma get_pdf_title_nonempty: "get_pdf_title e pdf_bytes = Some t \<Longrightarrow> t \<noteq> []"
  by (auto simp: get_pdf_title_def Let_def split: option.splits if_splits)

lemma endswith_nonempty: "endswith n ''.pdf'' \<Longrightarrow> n \<noteq> []"
  by (auto simp: endswith_def)

text \<open>
  What a finished conversion leaves: \<^verbatim>\<open>_process_conversion\<close>, run from a queued background
  task whose conversion succeeds, ends with the content-hash entry pointing at the task and
  with the task's Markdown file on the volume.
\<close>

lemma set_phase_nth:
  "i < length js \<Longrightarrow> set_phase i ph js ! i = (js ! i)\<lparr>j_phase := ph\<rparr>"
  by (simp add: set_phase_def)

lemma length_set_phase: "length (set_phase i ph js) = length js"
  by (simp add: set_phase_def)

lemma find_filter_not: "find P (filter (\<lambda>x. \<not> P x) xs) = None"
  by (induction xs) auto

lemma find_append_None: "find P xs = None \<Longrightarrow> find P (xs @ ys) = find P ys"
  by (induction xs) (auto split: if_splits)

lemma get_cache_after_create:
  "get_cache_by_title key fmt (fst (create_cache key fmt p now r))
     = Some \<lparr>c_id = Suc (cache_seq r), c_title = key, c_format = fmt,
             c_output_path = p, c_created_at = now\<rparr>"
proof -
  let ?P = "\<lambda>c. c_title c = key \<and> c_format c = fmt"
  let ?row = "\<lparr>c_id = Suc (cache_seq r), c_title = key, c_format = fmt,
               c_output_path = p, c_created_at = now\<rparr>"
  have "find ?P (filter (\<lambda>c. \<not> ?P c) (cache r)) = None"
    by (rule find_filter_not)
  then have "find ?P (filter (\<lambda>c. \<not> ?P c) (cache r) @ [?row]) = find ?P [?row]"
    by (rule find_append_None)
  also have "\<dots> = Some ?row"
    by simp
  finally have "find ?P (filter (\<lambda>c. \<not> ?P c) (cache r) @ [?row]) = Some ?row" .
  moreover have "cache (fst (create_cache key fmt p now r)) = filter (\<lambda>c. \<not> ?P c) (cache r) @ [?row]"
    unfolding create_cache_def Let_def by simp
  ultimately show ?thesis
    unfolding get_cache_by_title_def by (simp only:)
qed

lemma process_conversion_registers_hash:
  assumes i: "i < length (jobs s)"
    and j: "jobs s ! i = \<lparr>j_task_id = tid, j_pdf_bytes = b, j_content_hash = h, j_phase = Queued\<rparr>"
    and conv: "convert_pdf_to_markdown e root tid b (vol s) = (f', True, title, err)"
  shows "\<exists>c. get_cache_by_title (''hash:'' @ h) ''markdown'' (reg (process_conversion e root i s))
               = Some c
             \<and> c_output_path c = tid
             \<and> task_has_markdown (vol (process_conversion e root i s)) root tid"
proof -
  define s1 where "s1 = advance_job e root i s"
  define s2 where "s2 = advance_job e root i s1"
  define s3 where "s3 = advance_job e root i s2"
  define s4 where "s4 = advance_job e root i s3"
  define s5 where "s5 = advance_job e root i s4"
  have 1: "vol s1 = vol s" "length (jobs s1) = length (jobs s)"
    "jobs s1 ! i = \<lparr>j_task_id = tid, j_pdf_bytes = b, j_content_hash = h, j_phase = Started\<rparr>"
    using i j by (simp_all add: s1_def advance_job_def Let_def set_phase_nth length_set_phase)
  have 2: "vol s2 = f'" "length (jobs s2) = length (jobs s)"
    "jobs s2 ! i = \<lparr>j_task_id = tid, j_pdf_bytes = b, j_content_hash = h,
                    j_phase = Converted True title err\<rparr>"
    using i 1 conv by (simp_all add: s2_def advance_job_def Let_def set_phase_nth length_set_phase)
  obtain title' where 3: "vol s3 = f'" "length (jobs s3) = length (jobs s)"
    "jobs s3 ! i = \<lparr>j_task_id = tid, j_pdf_bytes = b, j_content_hash = h,
                    j_phase = Marked title'\<rparr>"
    using i 2 by (simp add: s3_def advance_job_def Let_def set_phase_nth length_set_phase)
  have 4: "vol s4 = f'" "length (jobs s4) = length (jobs s)"
    "jobs s4 ! i = \<lparr>j_task_id = tid, j_pdf_bytes = b, j_content_hash = h,
                    j_phase = TitleCached\<rparr>"
    using i 3 by (simp_all add: s4_def advance_job_def Let_def set_phase_nth length_set_phase)
  have 5: "vol s5 = f'"
    "reg s5 = fst (create_cache (''hash:'' @ h) ''markdown'' tid (clock s4) (reg s4))"
    using i 4 by (simp_all add: s5_def advance_job_def Let_def set_phase_nth length_set_phase)
  have p: "process_conversion e root i s = s5"
    by (simp add: process_conversion_def s1_def s2_def s3_def s4_def s5_def)
  from convert_pdf_to_markdown_success [OF conv] have "task_has_markdown f' root tid"
    by blast
  with 5 show ?thesis
    by (simp add: p get_cache_after_create)
qed

text \<open>
  C3 fails on the code. The cache entry for a finished task is written under the title that
  the conversion returns (the engine's document name), while a submission is looked up
  under the title in the PDF metadata. With an engine that names a document after its
  stream, the first document with metadata title \<^verbatim>\<open>Report\<close> is cached under
  \<^verbatim>\<open>document\<close>; other bytes with the same metadata title are then not a cache hit but a
  new pending task.
\<close>

theorem same_title_resubmission_misses:
  "get_pdf_title example_env ''%PDF-A'' = Some ''Report''
   \<and> get_pdf_title example_env ''%PDF-B'' = Some ''Report''
   \<and> map (\<lambda>t. (t_id t, t_status t, t_title t))
        (tasks (reg (process_conversion example_env storage_root 0
           (snd (convert_pdf example_env storage_root ''t1'' (Some ''a.pdf'') ''%PDF-A''
              (init_sys empty_volume 100))))))
       = [(''t1'', ''done'', Some ''document'')]
   \<and> fst (convert_pdf example_env storage_root ''t2'' (Some ''b.pdf'') ''%PDF-B''
        (process_conversion example_env storage_root 0
           (snd (convert_pdf example_env storage_root ''t1'' (Some ''a.pdf'') ''%PDF-A''
              (init_sys empty_volume 100)))))
       = Inr \<lparr>r_task_id = ''t2'', r_status = ''pending'',
              r_message = ''Conversion started. Check status with /api/status/{task_id}'',
              r_cached = False\<rparr>"
  by code_simp

text \<open>
  An engine that names a document by its metadata title, and the service after two
  documents with the same title \<^verbatim>\<open>Report\<close> were submitted one after the other, both
  before any conversion had finished (neither is in the cache when it arrives), and then
  converted: task \<^verbatim>\<open>t1\<close> for \<^verbatim>\<open>%PDF-A\<close> first, task \<^verbatim>\<open>t2\<close> for \<^verbatim>\<open>%PDF-B\<close> second.
\<close>

definition titled_env :: env where
  "titled_env =
     example_env\<lparr>docling := (\<lambda>md_path b.
        EngineDoc (case pdf_metadata_title example_env b of None \<Rightarrow> [] | Some t \<Rightarrow> t)
          (''![Image]('' @ path_str (butlast md_path) @ ''/output_artifacts/a.png)'')
          [(''a.png'', ''PNG'')])\<rparr>"

definition after_two_conversions :: sys where
  "after_two_conversions =
     process_conversion titled_env storage_root 1
       (process_conversion titled_env storage_root 0
         (snd (convert_pdf titled_env storage_root ''t2'' (Some ''b.pdf'') ''%PDF-B''
           (snd (convert_pdf titled_env storage_root ''t1'' (Some ''a.pdf'') ''%PDF-A''
             (init_sys empty_volume 100))))))"

text \<open>
  C4, as stated, fails: the title is looked up before the content hash, and the entry under
  a title goes to the task that finished last under it. After the two conversions the task
  \<^verbatim>\<open>t1\<close> of the first submission of \<^verbatim>\<open>%PDF-A\<close> is done and has its Markdown file;
  submitting \<^verbatim>\<open>%PDF-A\<close> again is a cache hit, but on \<^verbatim>\<open>t2\<close>.
\<close>

theorem resubmission_other_task_counterexample:
  "fst (convert_pdf titled_env storage_root ''t1'' (Some ''a.pdf'') ''%PDF-A''
          (init_sys empty_volume 100))
     = Inr \<lparr>r_task_id = ''t1'', r_status = ''pending'',
            r_message = ''Conversion started. Check status with /api/status/{task_id}'',
            r_cached = False\<rparr>
   \<and> map (\<lambda>t. (t_id t, t_status t, t_title t)) (tasks (reg after_two_conversions))
       = [(''t1'', ''done'', Some ''Report''), (''t2'', ''done'', Some ''Report'')]
   \<and> task_has_markdown (vol after_two_conversions) storage_root ''t1''
   \<and> convert_pdf titled_env storage_root ''t3'' (Some ''a.pdf'') ''%PDF-A'' after_two_conversions
       = (Inr (cache_hit_response ''t2''), after_two_conversions)"
  by code_simp

text \<open>
  C4, amended: when the registry holds an entry for the content hash of the bytes and the
  task of that entry still has its Markdown file (the state that the first submission's
  task leaves when it finishes, see \<open>process_conversion_registers_hash\<close>), submitting the
  bytes again is a cache hit and leaves the whole state unchanged, so no task is created.
  The task reported is the one under the document's metadata title, when there is such an
  entry with its Markdown file present, and the task of the content-hash entry otherwise.
\<close>

theorem resubmission_is_cache_hit:
  assumes "endswith (lower filename) ''.pdf''" and "pdf_bytes \<noteq> []"
    and "get_cache_by_title (''hash:'' @ get_pdf_hash e pdf_bytes) ''markdown'' (reg s) = Some c"
    and "task_has_markdown (vol s) root (c_output_path c)"
  shows "convert_pdf e root uuid (Some filename) pdf_bytes s
           = (Inr (cache_hit_response
                    (case (case get_pdf_title e pdf_bytes of
                             None \<Rightarrow> None
                           | Some t \<Rightarrow> cached_task s root t) of
                       Some by_title \<Rightarrow> by_title
                     | None \<Rightarrow> c_output_path c)), s)"
proof -
  from endswith_nonempty [OF assms(1)] have fn: "filename \<noteq> []"
    by (simp add: lower_def)
  from assms(3,4) have h: "cached_task s root (''hash:'' @ get_pdf_hash e pdf_bytes)
                             = Some (c_output_path c)"
    by (simp add: cached_task_def)
  show ?thesis
  proof (cases "get_pdf_title e pdf_bytes")
    case None
    with assms(1,2) fn h show ?thesis
      by (simp add: convert_pdf_def Let_def)
  next
    case (Some t)
    then have "t \<noteq> []"
      by (rule get_pdf_title_nonempty)
    with Some assms(1,2) fn h show ?thesis
      by (simp add: convert_pdf_def Let_def split: option.splits)
  qed
qed

theorem resubmission_is_cache_hit_witness:
  "endswith (lower ''again.PDF'') ''.pdf'' \<and> ''%PDF-A'' \<noteq> []
   \<and> get_cache_by_title (''hash:'' @ get_pdf_hash example_env ''%PDF-A'') ''markdown''
        (reg (process_conversion example_env storage_root 0
           (snd (convert_pdf example_env storage_root ''t1'' (Some ''a.pdf'') ''%PDF-A''
              (init_sys empty_volume 100)))))
       = Some \<lparr>c_id = 2, c_title = ''hash:48f6ee2d23f683b6'', c_format = ''markdown'',
               c_output_path = ''t1'', c_created_at = 100\<rparr>
   \<and> convert_pdf example_env storage_root ''t2'' (Some ''again.PDF'') ''%PDF-A''
        (process_conversion example_env storage_root 0
           (snd (convert_pdf example_env storage_root ''t1'' (Some ''a.pdf'') ''%PDF-A''
              (init_sys empty_volume 100))))
       = (Inr (cache_hit_response ''t1''),
          process_conversion example_env storage_root 0
           (snd (convert_pdf example_env storage_root ''t1'' (Some ''a.pdf'') ''%PDF-A''
              (init_sys empty_volume 100))))"
proof -
  define s where "s = process_conversion example_env storage_root 0
           (snd (convert_pdf example_env storage_root ''t1'' (Some ''a.pdf'') ''%PDF-A''
              (init_sys empty_volume 100)))"
  define c where "c = \<lparr>c_id = 2, c_title = ''hash:48f6ee2d23f683b6'', c_format = ''markdown'',
               c_output_path = ''t1'', c_created_at = 100\<rparr>"
  have h1: "endswith (lower ''again.PDF'') ''.pdf''"
    by code_simp
  have h2: "''%PDF-A'' \<noteq> []"
    by simp
  have h3: "get_cache_by_title (''hash:'' @ get_pdf_hash example_env ''%PDF-A'') ''markdown'' (reg s)
              = Some c"
    unfolding s_def c_def by code_simp
  have h4: "task_has_markdown (vol s) storage_root (c_output_path c)"
    unfolding s_def c_def by code_simp
  have t: "(case (case get_pdf_title example_env ''%PDF-A'' of
                    None \<Rightarrow> None
                  | Some t \<Rightarrow> cached_task s storage_root t) of
              Some by_title \<Rightarrow> by_title
            | None \<Rightarrow> c_output_path c) = ''t1''"
    unfolding s_def c_def by code_simp
  from resubmission_is_cache_hit [OF h1 h2 h3 h4, of "''t2''"] t h1 h2 h3
  show ?thesis
    unfolding s_def c_def by simp
qed


section \<open>The bundle (claim C7)\<close>

text \<open>
  Text in which the substitution of \<^verbatim>\<open>create_markdown_zip\<close> finds nothing:
  \<open>no_api_ref\<close> says that the pattern matches at no position; \<open>inert_api_md\<close> says more,
  as needed for text that stands before a reference: an attempt that begins in the text
  is decided inside it (its bracket, its path segment and its parenthesis are closed there)
  and fails.
\<close>

fun no_api_ref :: "string \<Rightarrow> bool" where
  "no_api_ref [] = True"
| "no_api_ref (c # cs) = (match_api_ref (c # cs) = None \<and> no_api_ref cs)"

fun inert_api_md :: "string \<Rightarrow> bool" where
  "inert_api_md [] = True"
| "inert_api_md (c # cs) =
     ((case strip_prefix ''!['' (c # cs) of
         None \<Rightarrow> True
       | Some t \<Rightarrow>
      (case span_until CHR '']'' t of
         None \<Rightarrow> False
       | Some (alt, r1) \<Rightarrow>
      (case strip_prefix ''(/api/images/'' r1 of
         None \<Rightarrow> True
       | Some r2 \<Rightarrow>
      (case span_until CHR ''/'' r2 of
         None \<Rightarrow> False
       | Some (seg, r3) \<Rightarrow>
           seg = [] \<or>
           (case span_until CHR '')'' r3 of
              None \<Rightarrow> False
            | Some (name, r4) \<Rightarrow> name = [])))))
      \<and> inert_api_md cs)"

text \<open>A document: pieces of inert text, each followed by an image reference
  \<^verbatim>\<open>![alt](/api/images/seg/name)\<close>, and a tail without references; and the same document
  with the references in the local form.\<close>

definition md_with_api_image_refs ::
  "(string \<times> string \<times> string \<times> string) list \<Rightarrow> string \<Rightarrow> string" where
  "md_with_api_image_refs refs tail =
     concat (map (\<lambda>(pre, alt, seg, name).
        pre @ ''!['' @ alt @ ''](/api/images/'' @ seg @ ''/'' @ name @ '')'') refs) @ tail"

definition md_with_local_refs ::
  "(string \<times> string \<times> string \<times> string) list \<Rightarrow> string \<Rightarrow> string" where
  "md_with_local_refs refs tail =
     concat (map (\<lambda>(pre, alt, seg, name).
        pre @ ''!['' @ alt @ ''](images/'' @ name @ '')'') refs) @ tail"

definition api_image_ref :: "string \<times> string \<times> string \<times> string \<Rightarrow> bool" where
  "api_image_ref x =
     (case x of (pre, alt, seg, name) \<Rightarrow>
        inert_api_md pre \<and> CHR '']'' \<notin> set alt \<and> seg \<noteq> [] \<and> CHR ''/'' \<notin> set seg
        \<and> name \<noteq> [] \<and> CHR '')'' \<notin> set name)"

lemma inert_api_md_no_match:
  assumes "inert_api_md (c # cs)" "rest = [] \<or> hd rest = CHR ''!''"
  shows "match_api_ref ((c # cs) @ rest) = None"
proof (cases "strip_prefix ''!['' (c # cs)")
  case None
  show ?thesis
  proof (cases "c = CHR ''!'' \<and> cs = []")
    case True
    with assms(2) show ?thesis
      by (cases rest) (auto simp: match_api_ref_def strip_prefix_def)
  next
    case False
    with None have "strip_prefix ''!['' ((c # cs) @ rest) = None"
      by (cases cs) (auto simp: strip_prefix_def split: if_splits)
    then show ?thesis
      by (simp add: match_api_ref_def)
  qed
next
  case (Some t)
  then have 1: "strip_prefix ''!['' ((c # cs) @ rest) = Some (t @ rest)"
    by (rule strip_prefix_extend)
  from Some assms(1) obtain alt r1 where sp: "span_until CHR '']'' t = Some (alt, r1)"
    by (auto split: option.splits)
  then have 2: "span_until CHR '']'' (t @ rest) = Some (alt, r1 @ rest)"
    by (rule span_until_extend)
  show ?thesis
  proof (cases "strip_prefix ''(/api/images/'' r1")
    case None
    moreover from assms(2) have "rest = [] \<or> hd rest \<notin> set ''(/api/images/''"
      by auto
    ultimately have "strip_prefix ''(/api/images/'' (r1 @ rest) = None"
      by (rule strip_prefix_extend_None)
    with 1 2 show ?thesis
      by (simp add: match_api_ref_def)
  next
    case r2: (Some r2)
    then have 3: "strip_prefix ''(/api/images/'' (r1 @ rest) = Some (r2 @ rest)"
      by (rule strip_prefix_extend)
    from Some sp r2 assms(1) obtain seg r3 where sg: "span_until CHR ''/'' r2 = Some (seg, r3)"
      by (auto split: option.splits)
    then have 4: "span_until CHR ''/'' (r2 @ rest) = Some (seg, r3 @ rest)"
      by (rule span_until_extend)
    show ?thesis
    proof (cases "seg = []")
      case True
      with 1 2 3 4 show ?thesis
        by (simp add: match_api_ref_def split: option.splits)
    next
      case False
      with Some sp r2 sg assms(1) obtain r4 where "span_until CHR '')'' r3 = Some ([], r4)"
        by (auto split: option.splits)
      then have "span_until CHR '')'' (r3 @ rest) = Some ([], r4 @ rest)"
        by (rule span_until_extend)
      with 1 2 3 4 show ?thesis
        by (simp add: match_api_ref_def)
    qed
  qed
qed

lemma localise_image_paths_skip:
  assumes "inert_api_md pre" "rest = [] \<or> hd rest = CHR ''!''"
  shows "localise_image_paths (pre @ rest) = pre @ localise_image_paths rest"
  using assms(1)
proof (induction pre)
  case Nil
  then show ?case by simp
next
  case (Cons c cs)
  from Cons.prems assms(2) have "match_api_ref ((c # cs) @ rest) = None"
    by (rule inert_api_md_no_match)
  moreover from Cons have "localise_image_paths (cs @ rest) = cs @ localise_image_paths rest"
    by simp
  ultimately show ?case
    by simp
qed

lemma localise_image_paths_no_ref: "no_api_ref s \<Longrightarrow> localise_image_paths s = s"
  by (induction s) auto

lemma localise_image_paths_reference:
  assumes "CHR '']'' \<notin> set alt" "seg \<noteq> []" "CHR ''/'' \<notin> set seg"
    "name \<noteq> []" "CHR '')'' \<notin> set name"
  shows "localise_image_paths (''!['' @ alt @ ''](/api/images/'' @ seg @ ''/'' @ name @ '')'' @ rest)
           = ''!['' @ alt @ ''](images/'' @ name @ '')'' @ localise_image_paths rest"
proof -
  from assms have "match_api_ref (''!['' @ alt @ ''](/api/images/'' @ seg @ ''/'' @ name @ '')'' @ rest)
                     = Some (alt, name, rest)"
    by (rule match_api_refI)
  then show ?thesis
    by simp
qed

lemma localise_image_paths_refs:
  assumes "\<forall>x \<in> set refs. api_image_ref x" and "no_api_ref tail"
  shows "localise_image_paths (md_with_api_image_refs refs tail) = md_with_local_refs refs tail"
  using assms(1)
proof (induction refs)
  case Nil
  from assms(2) show ?case
    by (simp add: md_with_api_image_refs_def md_with_local_refs_def localise_image_paths_no_ref)
next
  case (Cons x refs)
  obtain pre alt seg name where x: "x = (pre, alt, seg, name)"
    by (cases x) auto
  from Cons.prems x have pre: "inert_api_md pre"
    and r: "CHR '']'' \<notin> set alt" "seg \<noteq> []" "CHR ''/'' \<notin> set seg" "name \<noteq> []"
           "CHR '')'' \<notin> set name"
    by (auto simp: api_image_ref_def)
  let ?rest = "md_with_api_image_refs refs tail"
  let ?ref = "''!['' @ alt @ ''](/api/images/'' @ seg @ ''/'' @ name @ '')'' @ ?rest"
  from Cons have IH: "localise_image_paths ?rest = md_with_local_refs refs tail"
    by simp
  have "md_with_api_image_refs (x # refs) tail = pre @ ?ref"
    by (simp add: md_with_api_image_refs_def x)
  moreover have "localise_image_paths (pre @ ?ref) = pre @ localise_image_paths ?ref"
    by (rule localise_image_paths_skip [OF pre]) simp
  ultimately show ?case
    using localise_image_paths_reference [OF r, of ?rest] IH
    by (simp add: md_with_local_refs_def x)
qed

lemma is_file_read_text: "is_file f p \<longleftrightarrow> (\<exists>content. read_text f p = Some content)"
  by (auto simp: is_file_def read_text_def split: option.splits node.splits)

lemma path_suffix_child: "path_suffix (d @ [name]) = name_suffix name"
  by (simp add: path_suffix_def path_name_def)

lemma iterdir_iff: "name \<in> set (iterdir f d) \<longleftrightarrow> (\<exists>n. (d @ [name], n) \<in> set f)"
proof
  assume "name \<in> set (iterdir f d)"
  then obtain p n where "(p, n) \<in> set f" "p \<noteq> []" "butlast p = d" "name = last p"
    by (auto simp: iterdir_def)
  then have "(d @ [name], n) \<in> set f"
    by (metis append_butlast_last_id)
  then show "\<exists>n. (d @ [name], n) \<in> set f" ..
next
  assume "\<exists>n. (d @ [name], n) \<in> set f"
  then obtain n where "(d @ [name], n) \<in> set f" ..
  then show "name \<in> set (iterdir f d)"
    by (force simp: iterdir_def)
qed

lemma zip_images_set:
  "set (zip_images f a) =
     {(''images/'' @ name, content) | name content.
        (\<exists>d. realpath f a = Some d \<and> name \<in> set (iterdir f d))
        \<and> read_text f (a @ [name]) = Some content
        \<and> lower (name_suffix name) \<in> set image_suffixes}"
proof (cases "realpath f a")
  case None
  then show ?thesis
    by (simp add: zip_images_def)
next
  case (Some d)
  then show ?thesis
    by (auto simp: zip_images_def Let_def is_file_read_text path_suffix_child
             split: option.splits if_splits)
qed

text \<open>
  C7: \<^verbatim>\<open>create_markdown_zip\<close> returns nothing when the task has no Markdown file. When the
  file can be read (and \<^verbatim>\<open>output_artifacts\<close> is not a regular file), the archive starts
  with the member \<^verbatim>\<open>output.md\<close>, the Markdown after the substitution, in which every image
  reference \<^verbatim>\<open>![alt](/api/images/seg/name)\<close> of a document made of inert text and such
  references has become \<^verbatim>\<open>![alt](images/name)\<close>; its other members are exactly
  \<^verbatim>\<open>images/name\<close> for the files directly inside the task's \<^verbatim>\<open>output_artifacts\<close>
  whose lower-cased extension is \<^verbatim>\<open>.png .jpg .jpeg .gif .webp\<close>, with their content.
\<close>

theorem create_markdown_zip_contents:
  "(\<not> task_has_markdown f root task_id \<longrightarrow> create_markdown_zip f root task_id = Inr None)
   \<and> (get_markdown f root task_id = Some md \<and> \<not> is_file f (assets_dir root task_id) \<longrightarrow>
        (\<exists>images.
           create_markdown_zip f root task_id
             = Inr (Some ((''output.md'', localise_image_paths md) # images))
         \<and> set images =
             {(''images/'' @ name, content) | name content.
                (\<exists>d. realpath f (assets_dir root task_id) = Some d \<and> name \<in> set (iterdir f d))
                \<and> read_text f (assets_dir root task_id @ [name]) = Some content
                \<and> lower (name_suffix name) \<in> set image_suffixes}
         \<and> ((\<forall>x \<in> set refs. api_image_ref x) \<and> no_api_ref tail
               \<and> md = md_with_api_image_refs refs tail
             \<longrightarrow> localise_image_paths md = md_with_local_refs refs tail)))"
proof (intro conjI impI)
  assume "\<not> task_has_markdown f root task_id"
  then show "create_markdown_zip f root task_id = Inr None"
    by (simp add: create_markdown_zip_def task_has_markdown_def Let_def)
next
  assume a: "get_markdown f root task_id = Some md \<and> \<not> is_file f (assets_dir root task_id)"
  let ?md_path = "truediv (get_task_dir root task_id) ''output.md''"
  let ?a = "assets_dir root task_id"
  from a have ex: "exists f ?md_path" and rd: "read_text f ?md_path = Some md"
    and nf: "\<not> is_file f ?a"
    by (auto simp: get_markdown_def Let_def split: if_splits)
  have empty: "\<not> exists f ?a \<Longrightarrow> zip_images f ?a = []"
    by (simp add: zip_images_def exists_def)
  from ex rd nf have z: "create_markdown_zip f root task_id
           = Inr (Some ((''output.md'', localise_image_paths md) # zip_images f ?a))"
    using empty by (simp add: create_markdown_zip_def Let_def assets_dir_def)
  have "(\<forall>x \<in> set refs. api_image_ref x) \<and> no_api_ref tail \<and> md = md_with_api_image_refs refs tail
          \<longrightarrow> localise_image_paths md = md_with_local_refs refs tail"
    by (auto simp: localise_image_paths_refs)
  with z zip_images_set [of f ?a]
  show "\<exists>images.
           create_markdown_zip f root task_id
             = Inr (Some ((''output.md'', localise_image_paths md) # images))
         \<and> set images =
             {(''images/'' @ name, content) | name content.
                (\<exists>d. realpath f ?a = Some d \<and> name \<in> set (iterdir f d))
                \<and> read_text f (?a @ [name]) = Some content
                \<and> lower (name_suffix name) \<in> set image_suffixes}
         \<and> ((\<forall>x \<in> set refs. api_image_ref x) \<and> no_api_ref tail
               \<and> md = md_with_api_image_refs refs tail
             \<longrightarrow> localise_image_paths md = md_with_local_refs refs tail)"
    by blast
qed

text \<open>
  A volume with one finished task: its Markdown refers to one picture; beside the picture
  the asset directory holds an upper-case \<^verbatim>\<open>.JPG\<close>, a text file and a directory whose
  name ends in \<^verbatim>\<open>.gif\<close>.
\<close>

definition fs_bundle :: fs where
  "fs_bundle =
     [([], Dir), ([''srv''], Dir), ([''srv'', ''out''], Dir),
      ([''srv'', ''out'', ''t1''], Dir),
      ([''srv'', ''out'', ''t1'', ''output.md''], File ''# T ![A](/api/images/t1/a.png) end''),
      ([''srv'', ''out'', ''t1'', ''output_artifacts''], Dir),
      ([''srv'', ''out'', ''t1'', ''output_artifacts'', ''a.png''], File ''PNG''),
      ([''srv'', ''out'', ''t1'', ''output_artifacts'', ''B.JPG''], File ''JPG''),
      ([''srv'', ''out'', ''t1'', ''output_artifacts'', ''notes.txt''], File ''txt''),
      ([''srv'', ''out'', ''t1'', ''output_artifacts'', ''sub.gif''], Dir)]"

theorem create_markdown_zip_contents_witness:
  "\<not> task_has_markdown fs_bundle storage_root ''t9''
   \<and> create_markdown_zip fs_bundle storage_root ''t9'' = Inr None
   \<and> get_markdown fs_bundle storage_root ''t1'' = Some ''# T ![A](/api/images/t1/a.png) end''
   \<and> \<not> is_file fs_bundle (assets_dir storage_root ''t1'')
   \<and> api_image_ref (''# T '', ''A'', ''t1'', ''a.png'')
   \<and> no_api_ref '' end''
   \<and> create_markdown_zip fs_bundle storage_root ''t1''
       = Inr (Some [(''output.md'', ''# T ![A](images/a.png) end''),
                    (''images/a.png'', ''PNG''), (''images/B.JPG'', ''JPG'')])"
proof -
  have h0: "\<not> task_has_markdown fs_bundle storage_root ''t9''"
    by code_simp
  have h1: "get_markdown fs_bundle storage_root ''t1'' = Some ''# T ![A](/api/images/t1/a.png) end''"
    by code_simp
  have h2: "\<not> is_file fs_bundle (assets_dir storage_root ''t1'')"
    by code_simp
  have h3: "\<forall>x \<in> set [(''# T '', ''A'', ''t1'', ''a.png'')]. api_image_ref x"
    by code_simp
  have h4: "no_api_ref '' end''"
    by code_simp
  have md: "''# T ![A](/api/images/t1/a.png) end''
              = md_with_api_image_refs [(''# T '', ''A'', ''t1'', ''a.png'')] '' end''"
    by code_simp
  have loc: "md_with_local_refs [(''# T '', ''A'', ''t1'', ''a.png'')] '' end''
               = ''# T ![A](images/a.png) end''"
    by code_simp
  have imgs: "tl (the (projr (create_markdown_zip fs_bundle storage_root ''t1'')))
                = [(''images/a.png'', ''PNG''), (''images/B.JPG'', ''JPG'')]"
    by code_simp
  from create_markdown_zip_contents
         [of fs_bundle storage_root "''t9''" "''# T ![A](/api/images/t1/a.png) end''"
             "[(''# T '', ''A'', ''t1'', ''a.png'')]" "'' end''"] h0
  have none: "create_markdown_zip fs_bundle storage_root ''t9'' = Inr None"
    by blast
  from create_markdown_zip_contents
         [of fs_bundle storage_root "''t1''" "''# T ![A](/api/images/t1/a.png) end''"
             "[(''# T '', ''A'', ''t1'', ''a.png'')]" "'' end''"] h1 h2 h3 h4 md
  obtain images where
    z: "create_markdown_zip fs_bundle storage_root ''t1''
          = Inr (Some ((''output.md'', localise_image_paths ''# T ![A](/api/images/t1/a.png) end'')
                       # images))"
    and l: "localise_image_paths ''# T ![A](/api/images/t1/a.png) end''
              = md_with_local_refs [(''# T '', ''A'', ''t1'', ''a.png'')] '' end''"
    by blast
  from z imgs have "images = [(''images/a.png'', ''PNG''), (''images/B.JPG'', ''JPG'')]"
    by simp
  with z l loc have "create_markdown_zip fs_bundle storage_root ''t1''
       = Inr (Some [(''output.md'', ''# T ![A](images/a.png) end''),
                    (''images/a.png'', ''PNG''), (''images/B.JPG'', ''JPG'')])"
    by simp
  moreover from h3 have "api_image_ref (''# T '', ''A'', ''t1'', ''a.png'')"
    by simp
  ultimately show ?thesis
    using h0 none h1 h2 h4 by blast
qed


section \<open>Task life cycle (claims C5 and C6)\<close>

text \<open>
  The status values, the moves between them that the claims allow, and what a task row
  looks like in each phase of its background task.
\<close>

definition allowed_move :: "string \<Rightarrow> string \<Rightarrow> bool" where
  "allowed_move a b \<longleftrightarrow>
     (a, b) \<in> {(''pending'', ''processing''), (''processing'', ''done''),
                (''processing'', ''error'')}"

definition terminal :: "string \<Rightarrow> bool" where
  "terminal a \<longleftrightarrow> a = ''done'' \<or> a = ''error''"

definition unfinished_row :: "task \<Rightarrow> bool" where
  "unfinished_row t \<longleftrightarrow> t_title t = None \<and> t_output_path t = None \<and> t_completed_at t = None"

definition done_row :: "task \<Rightarrow> bool" where
  "done_row t \<longleftrightarrow>
     t_status t = ''done'' \<and> t_title t \<noteq> None \<and> t_output_path t \<noteq> None
     \<and> t_completed_at t \<noteq> None"

definition error_row :: "task \<Rightarrow> bool" where
  "error_row t \<longleftrightarrow>
     t_status t = ''error'' \<and> t_title t = None \<and> t_output_path t = None
     \<and> t_completed_at t \<noteq> None"

fun consistent :: "phase \<Rightarrow> task \<Rightarrow> bool" where
  "consistent Queued t = (t_status t = ''pending'' \<and> unfinished_row t)"
| "consistent Started t = (t_status t = ''processing'' \<and> unfinished_row t)"
| "consistent (Converted success title err) t = (t_status t = ''processing'' \<and> unfinished_row t)"
| "consistent (Marked title) t = done_row t"
| "consistent TitleCached t = done_row t"
| "consistent Finished t = (done_row t \<or> error_row t)"

text \<open>
  The invariant of the runs: background tasks and task rows have distinct identifiers, and
  every task row belongs to a background task whose phase agrees with the row.
\<close>

definition sys_inv :: "sys \<Rightarrow> bool" where
  "sys_inv s \<longleftrightarrow>
     distinct (map j_task_id (jobs s)) \<and> distinct (map t_id (tasks (reg s)))
     \<and> (\<forall>t \<in> set (tasks (reg s)). \<exists>j \<in> set (jobs s).
           j_task_id j = t_id t \<and> consistent (j_phase j) t)"

inductive run :: "env \<Rightarrow> path \<Rightarrow> sys \<Rightarrow> sys \<Rightarrow> bool" for e :: env and root :: path where
  stay: "run e root s s"
| next_step: "run e root s s' \<Longrightarrow> step e root s' s'' \<Longrightarrow> run e root s s''"

lemma find_id_Some:
  assumes "distinct (map t_id ts)"
  shows "find (\<lambda>t. t_id t = k) ts = Some t \<longleftrightarrow> t \<in> set ts \<and> t_id t = k"
  using assms
proof (induction ts)
  case Nil
  then show ?case by simp
next
  case (Cons a ts)
  then show ?case
    by (auto simp: image_iff)
qed

lemma find_id_None: "find (\<lambda>t. t_id t = k) ts = None \<longleftrightarrow> k \<notin> t_id ` set ts"
  by (induction ts) auto

lemma set_phase_ids: "map j_task_id (set_phase i ph js) = map j_task_id js"
proof (cases "i < length js")
  case True
  then show ?thesis
    by (simp add: set_phase_def map_update list_update_same_conv)
next
  case False
  then show ?thesis
    by (simp add: set_phase_def list_update_beyond)
qed

lemma set_phase_other:
  assumes "j \<in> set js" "j \<noteq> js ! i"
  shows "j \<in> set (set_phase i ph js)"
proof -
  from assms(1) obtain k where k: "k < length js" "js ! k = j"
    by (auto simp: in_set_conv_nth)
  with assms(2) have "k \<noteq> i"
    by auto
  with k have "set_phase i ph js ! k = j" "k < length (set_phase i ph js)"
    by (simp_all add: set_phase_def)
  then show ?thesis
    by (metis nth_mem)
qed

lemma set_phase_self:
  assumes "i < length js"
  shows "(js ! i)\<lparr>j_phase := ph\<rparr> \<in> set (set_phase i ph js)"
  using assms by (simp add: set_phase_def set_update_memI)

lemma create_task_effect:
  assumes "create_task task_id fmt now r = Inr r'"
  shows "task_id \<notin> t_id ` set (tasks r)
       \<and> r' = r\<lparr>tasks := tasks r @
                  [\<lparr>t_id = task_id, t_status = ''pending'', t_format = fmt, t_title = None,
                    t_output_path = None, t_error_message = None, t_created_at = now,
                    t_completed_at = None\<rparr>]\<rparr>"
  using assms by (auto simp: create_task_def split: if_splits)

lemma convert_pdf_effect:
  assumes "convert_pdf e root uuid filename b s = (res, s')"
  shows "s' = s \<or>
         (\<exists>r' h. create_task uuid ''markdown'' (clock s) (reg s) = Inr r'
            \<and> s' = s\<lparr>reg := r',
                     jobs := jobs s @ [\<lparr>j_task_id = uuid, j_pdf_bytes = b, j_content_hash = h,
                                        j_phase = Queued\<rparr>]\<rparr>)"
  using assms
  by (auto simp: convert_pdf_def Let_def split: if_splits option.splits sum.splits)

text \<open>
  One stretch of a background task changes the phase of that task and rewrites the rows
  with its identifier, in a way that keeps row and phase in agreement and moves the status
  along an allowed edge or not at all.
\<close>

definition job_effect :: "sys \<Rightarrow> sys \<Rightarrow> nat \<Rightarrow> phase \<Rightarrow> (task \<Rightarrow> task) \<Rightarrow> bool" where
  "job_effect s s' i ph upd \<longleftrightarrow>
     jobs s' = set_phase i ph (jobs s)
     \<and> tasks (reg s') = map (\<lambda>t. if t_id t = j_task_id (jobs s ! i) then upd t else t) (tasks (reg s))
     \<and> (\<forall>t. t_id (upd t) = t_id t)
     \<and> (\<forall>t. consistent (j_phase (jobs s ! i)) t \<longrightarrow>
              consistent ph (upd t)
            \<and> (t_status (upd t) = t_status t \<or> allowed_move (t_status t) (t_status (upd t))))"

lemma advance_job_effect:
  assumes "i < length (jobs s)"
  shows "\<exists>ph upd. job_effect s (advance_job e root i s) i ph upd"
proof (cases "j_phase (jobs s ! i)")
  case Queued
  have "job_effect s (advance_job e root i s) i Started
          (\<lambda>t. t\<lparr>t_status := ''processing'', t_title := None\<rparr>)"
    using assms Queued
    by (simp add: job_effect_def advance_job_def Let_def update_task_status_def
                  unfinished_row_def allowed_move_def)
  then show ?thesis
    by blast
next
  case Started
  obtain f' success title err where
    c: "convert_pdf_to_markdown e root (j_task_id (jobs s ! i)) (j_pdf_bytes (jobs s ! i)) (vol s)
          = (f', success, title, err)"
    by (metis prod_cases4)
  have "job_effect s (advance_job e root i s) i (Converted success title err) (\<lambda>t. t)"
    using assms Started c
    by (simp add: job_effect_def advance_job_def Let_def)
  then show ?thesis
    by blast
next
  case (Converted success title err)
  show ?thesis
  proof (cases success)
    case True
    define title' where "title' = (case title of None \<Rightarrow> ''Untitled''
                                  | Some t \<Rightarrow> if t = [] then ''Untitled'' else t)"
    have "job_effect s (advance_job e root i s) i (Marked title')
            (\<lambda>t. t\<lparr>t_status := ''done'', t_title := Some title',
                    t_output_path := Some (path_str (get_task_dir root (j_task_id (jobs s ! i)))),
                    t_error_message := None, t_completed_at := Some (clock s)\<rparr>)"
      using assms Converted True
      by (simp add: job_effect_def advance_job_def Let_def update_task_status_def title'_def
                    done_row_def allowed_move_def)
    then show ?thesis
      by blast
  next
    case False
    have "job_effect s (advance_job e root i s) i Finished
            (\<lambda>t. t\<lparr>t_status := ''error'', t_title := None, t_output_path := None,
                    t_error_message := err, t_completed_at := Some (clock s)\<rparr>)"
      using assms Converted False
      by (simp add: job_effect_def advance_job_def Let_def update_task_status_def
                    error_row_def allowed_move_def)
    then show ?thesis
      by blast
  qed
next
  case (Marked title')
  have "job_effect s (advance_job e root i s) i TitleCached (\<lambda>t. t)"
    using assms Marked
    by (simp add: job_effect_def advance_job_def Let_def create_cache_def)
  then show ?thesis
    by blast
next
  case TitleCached
  have "job_effect s (advance_job e root i s) i Finished (\<lambda>t. t)"
    using assms TitleCached
    by (simp add: job_effect_def advance_job_def Let_def create_cache_def)
  then show ?thesis
    by blast
next
  case Finished
  have "(jobs s ! i)\<lparr>j_phase := Finished\<rparr> = jobs s ! i"
    using Finished by (cases "jobs s ! i") simp
  then have "set_phase i Finished (jobs s) = jobs s"
    by (simp add: set_phase_def)
  then have "job_effect s (advance_job e root i s) i Finished (\<lambda>t. t)"
    using assms Finished
    by (simp add: job_effect_def advance_job_def Let_def)
  then show ?thesis
    by blast
qed

lemma sys_inv_init: "sys_inv (init_sys f c)"
  by (simp add: sys_inv_def init_sys_def init_db_def)

text \<open>What one step of the service does to the task table.\<close>

definition tasks_follow :: "sys \<Rightarrow> sys \<Rightarrow> bool" where
  "tasks_follow s s' \<longleftrightarrow>
     j_task_id ` set (jobs s) \<subseteq> j_task_id ` set (jobs s')
     \<and> (\<forall>t' \<in> set (tasks (reg s')).
           (\<exists>t \<in> set (tasks (reg s)). t_id t = t_id t'
               \<and> (t_status t' = t_status t \<or> allowed_move (t_status t) (t_status t')))
         \<or> (t_id t' \<notin> j_task_id ` set (jobs s) \<and> t_status t' = ''pending''))"

lemma tasks_follow_same_tasks:
  assumes "tasks (reg s') = tasks (reg s)" "jobs s' = jobs s"
  shows "tasks_follow s s'"
  using assms by (auto simp: tasks_follow_def)

lemma submit_keeps_inv:
  assumes inv: "sys_inv s" and fresh: "uuid \<notin> j_task_id ` set (jobs s)"
    and c: "convert_pdf e root uuid filename b s = (res, s')"
  shows "sys_inv s' \<and> tasks_follow s s'"
proof -
  from convert_pdf_effect [OF c] show ?thesis
  proof
    assume "s' = s"
    with inv show ?thesis
      by (simp add: tasks_follow_same_tasks)
  next
    assume "\<exists>r' h. create_task uuid ''markdown'' (clock s) (reg s) = Inr r'
            \<and> s' = s\<lparr>reg := r',
                     jobs := jobs s @ [\<lparr>j_task_id = uuid, j_pdf_bytes = b, j_content_hash = h,
                                        j_phase = Queued\<rparr>]\<rparr>"
    then obtain r' h where ct: "create_task uuid ''markdown'' (clock s) (reg s) = Inr r'"
      and s': "s' = s\<lparr>reg := r',
                     jobs := jobs s @ [\<lparr>j_task_id = uuid, j_pdf_bytes = b, j_content_hash = h,
                                        j_phase = Queued\<rparr>]\<rparr>"
      by blast
    let ?row = "\<lparr>t_id = uuid, t_status = ''pending'', t_format = ''markdown'', t_title = None,
                 t_output_path = None, t_error_message = None, t_created_at = clock s,
                 t_completed_at = None\<rparr>"
    from create_task_effect [OF ct] have new: "uuid \<notin> t_id ` set (tasks (reg s))"
      and ts: "tasks r' = tasks (reg s) @ [?row]"
      by simp_all
    have js: "jobs s' = jobs s @ [\<lparr>j_task_id = uuid, j_pdf_bytes = b, j_content_hash = h,
                                   j_phase = Queued\<rparr>]"
      and ts': "tasks (reg s') = tasks (reg s) @ [?row]"
      by (simp_all add: s' ts)
    have "distinct (map j_task_id (jobs s'))"
      using inv fresh by (simp add: js sys_inv_def)
    moreover have "distinct (map t_id (tasks (reg s')))"
      using inv new by (simp add: ts' sys_inv_def)
    moreover have "\<forall>t \<in> set (tasks (reg s')). \<exists>j \<in> set (jobs s').
                     j_task_id j = t_id t \<and> consistent (j_phase j) t"
      using inv by (auto simp: js ts' sys_inv_def unfinished_row_def)
    moreover have "tasks_follow s s'"
      using fresh by (auto simp: tasks_follow_def js ts')
    ultimately show ?thesis
      by (simp add: sys_inv_def)
  qed
qed

lemma advance_keeps_inv:
  assumes inv: "sys_inv s" and i: "i < length (jobs s)"
  shows "sys_inv (advance_job e root i s) \<and> tasks_follow s (advance_job e root i s)"
proof -
  let ?s' = "advance_job e root i s"
  let ?tid = "j_task_id (jobs s ! i)"
  from advance_job_effect [OF i] obtain ph upd where "job_effect s ?s' i ph upd"
    by blast
  then have js: "jobs ?s' = set_phase i ph (jobs s)"
    and ts: "tasks (reg ?s') = map (\<lambda>t. if t_id t = ?tid then upd t else t) (tasks (reg s))"
    and ids: "\<And>t. t_id (upd t) = t_id t"
    and ok: "\<And>t. consistent (j_phase (jobs s ! i)) t \<Longrightarrow>
                consistent ph (upd t)
              \<and> (t_status (upd t) = t_status t \<or> allowed_move (t_status t) (t_status (upd t)))"
    by (simp_all add: job_effect_def)
  from inv have dj: "distinct (map j_task_id (jobs s))"
    and dt: "distinct (map t_id (tasks (reg s)))"
    and own: "\<And>t. t \<in> set (tasks (reg s)) \<Longrightarrow>
                \<exists>j \<in> set (jobs s). j_task_id j = t_id t \<and> consistent (j_phase j) t"
    by (simp_all add: sys_inv_def)
  have same_job: "j = jobs s ! i" if "j \<in> set (jobs s)" "j_task_id j = ?tid" for j
  proof -
    from that(1) obtain k where k: "k < length (jobs s)" "jobs s ! k = j"
      by (auto simp: in_set_conv_nth)
    with that(2) i have "map j_task_id (jobs s) ! k = map j_task_id (jobs s) ! i"
      by simp
    moreover from k i have "k < length (map j_task_id (jobs s))" "i < length (map j_task_id (jobs s))"
      by simp_all
    ultimately have "k = i"
      using nth_eq_iff_index_eq [OF dj] by blast
    with k show ?thesis
      by simp
  qed
  have ids': "map t_id (tasks (reg ?s')) = map t_id (tasks (reg s))"
    by (simp add: ts ids cong: map_cong)
  have 1: "distinct (map j_task_id (jobs ?s'))"
    using dj by (simp add: js set_phase_ids)
  have 2: "distinct (map t_id (tasks (reg ?s')))"
    using dt by (simp add: ids')
  have 3: "\<exists>j \<in> set (jobs ?s'). j_task_id j = t_id t' \<and> consistent (j_phase j) t'"
    and 4: "\<exists>t \<in> set (tasks (reg s)). t_id t = t_id t'
               \<and> (t_status t' = t_status t \<or> allowed_move (t_status t) (t_status t'))"
    if "t' \<in> set (tasks (reg ?s'))" for t'
  proof -
    from that obtain t where t: "t \<in> set (tasks (reg s))"
      and t': "t' = (if t_id t = ?tid then upd t else t)"
      by (auto simp: ts)
    from own [OF t] obtain j where j: "j \<in> set (jobs s)" "j_task_id j = t_id t"
      "consistent (j_phase j) t"
      by blast
    show "\<exists>j \<in> set (jobs ?s'). j_task_id j = t_id t' \<and> consistent (j_phase j) t'"
    proof (cases "t_id t = ?tid")
      case True
      with j same_job have "j = jobs s ! i"
        by simp
      with j(3) ok have "consistent ph (upd t)"
        by simp
      moreover have "(jobs s ! i)\<lparr>j_phase := ph\<rparr> \<in> set (jobs ?s')"
        using i by (simp add: js set_phase_self)
      moreover have "j_task_id ((jobs s ! i)\<lparr>j_phase := ph\<rparr>) = t_id t'"
        "j_phase ((jobs s ! i)\<lparr>j_phase := ph\<rparr>) = ph" "t' = upd t"
        using True t' by (simp_all add: ids)
      ultimately show ?thesis
        by metis
    next
      case False
      with j have "j \<noteq> jobs s ! i"
        by auto
      with j(1) have "j \<in> set (jobs ?s')"
        by (simp add: js set_phase_other)
      with j False t' show ?thesis
        by auto
    qed
    show "\<exists>t \<in> set (tasks (reg s)). t_id t = t_id t'
               \<and> (t_status t' = t_status t \<or> allowed_move (t_status t) (t_status t'))"
    proof (cases "t_id t = ?tid")
      case True
      with j same_job have "j = jobs s ! i"
        by simp
      with j(3) ok have "t_status (upd t) = t_status t \<or> allowed_move (t_status t) (t_status (upd t))"
        by simp
      with True t t' show ?thesis
        by (auto simp: ids)
    next
      case False
      with t t' show ?thesis
        by auto
    qed
  qed
  have 5: "j_task_id ` set (jobs s) \<subseteq> j_task_id ` set (jobs ?s')"
    using set_phase_ids [of i ph "jobs s"] by (metis js list.set_map subset_refl)
  from 1 2 3 have "sys_inv ?s'"
    by (simp add: sys_inv_def)
  moreover from 4 5 have "tasks_follow s ?s'"
    by (simp add: tasks_follow_def)
  ultimately show ?thesis
    by simp
qed

lemma prune_keeps_inv:
  assumes inv: "sys_inv s"
  shows "sys_inv (s\<lparr>reg := fst (delete_old_tasks days (clock s) (reg s))\<rparr>)
       \<and> tasks_follow s (s\<lparr>reg := fst (delete_old_tasks days (clock s) (reg s))\<rparr>)"
proof -
  let ?s' = "s\<lparr>reg := fst (delete_old_tasks days (clock s) (reg s))\<rparr>"
  obtain P where ts: "tasks (reg ?s') = filter P (tasks (reg s))"
  proof (cases "days < 0")
    case True
    then have "tasks (reg ?s') = filter (\<lambda>t. True) (tasks (reg s))"
      by (simp add: delete_old_tasks_def)
    then show ?thesis
      by (rule that)
  next
    case False
    then have "tasks (reg ?s')
                 = filter (\<lambda>t. \<not> t_created_at t < clock s - days * 86400) (tasks (reg s))"
      by (simp add: delete_old_tasks_def Let_def)
    then show ?thesis
      by (rule that)
  qed
  have js: "jobs ?s' = jobs s"
    by simp
  from inv have "sys_inv ?s'"
    unfolding sys_inv_def ts js by (auto simp: distinct_map_filter)
  moreover have "tasks_follow s ?s'"
    unfolding tasks_follow_def ts js by auto
  ultimately show ?thesis
    by simp
qed

lemma step_keeps_inv:
  assumes "sys_inv s" "step e root s s'"
  shows "sys_inv s' \<and> tasks_follow s s'"
  using assms(2,1)
proof (cases rule: step.cases)
  case (submit uuid filename pdf_bytes res)
  with assms(1) show ?thesis
    by (simp add: submit_keeps_inv)
next
  case (advance i)
  with assms(1) show ?thesis
    by (simp add: advance_keeps_inv)
next
  case (prune days)
  with assms(1) show ?thesis
    by (simp add: prune_keeps_inv)
next
  case (tick d)
  with assms(1) have "sys_inv s'"
    by (simp add: sys_inv_def)
  moreover from tick have "tasks_follow s s'"
    by (simp add: tasks_follow_same_tasks)
  ultimately show ?thesis
    by simp
qed

lemma reachable_inv: "reachable e root s \<Longrightarrow> sys_inv s"
proof (induction rule: reachable.induct)
  case (start f c)
  show ?case
    by (rule sys_inv_init)
next
  case (later s s')
  then show ?case
    by (simp add: step_keeps_inv)
qed

lemma get_task_iff:
  assumes "sys_inv s"
  shows "get_task k (reg s) = Some t \<longleftrightarrow> t \<in> set (tasks (reg s)) \<and> t_id t = k"
  using assms by (simp add: get_task_def sys_inv_def find_id_Some)

lemma allowed_move_not_terminal: "terminal a \<Longrightarrow> \<not> allowed_move a b"
  by (auto simp: terminal_def allowed_move_def)

lemma sys_inv_owner:
  assumes "sys_inv s" "t \<in> set (tasks (reg s))"
  shows "\<exists>j \<in> set (jobs s). j_task_id j = t_id t \<and> consistent (j_phase j) t"
proof -
  from assms(1) have "\<forall>t \<in> set (tasks (reg s)). \<exists>j \<in> set (jobs s).
                        j_task_id j = t_id t \<and> consistent (j_phase j) t"
    unfolding sys_inv_def by (elim conjE)
  with assms(2) show ?thesis
    by (rule bspec [rotated])
qed

lemma sys_inv_task_has_job:
  assumes "sys_inv s" "get_task k (reg s) = Some t"
  shows "k \<in> j_task_id ` set (jobs s)"
proof -
  from assms have t: "t \<in> set (tasks (reg s))" "t_id t = k"
    by (simp_all add: get_task_iff)
  from sys_inv_owner [OF assms(1) t(1)] obtain j where "j \<in> set (jobs s)" "j_task_id j = t_id t"
    by blast
  with t(2) show ?thesis
    by (metis imageI)
qed

text \<open>
  A registry driven directly: a task is created, marked \<^verbatim>\<open>done\<close>, and marked
  \<^verbatim>\<open>processing\<close> again. \<^verbatim>\<open>update_task_status\<close> writes whatever status it is given.
\<close>

definition registry_pending :: registry where
  "registry_pending =
     \<lparr>tasks = [\<lparr>t_id = ''t1'', t_status = ''pending'', t_format = ''markdown'', t_title = None,
                 t_output_path = None, t_error_message = None, t_created_at = 100,
                 t_completed_at = None\<rparr>],
      cache = [], cache_seq = 0\<rparr>"

text \<open>
  C5, as stated, fails for sequences of registry operations: the registry does not guard
  the status. A pending task is set to \<^verbatim>\<open>done\<close> without passing \<^verbatim>\<open>processing\<close>, and a
  \<^verbatim>\<open>done\<close> task is set to \<^verbatim>\<open>processing\<close>.
\<close>

theorem update_task_status_leaves_done_counterexample:
  "create_task ''t1'' ''markdown'' 100 init_db = Inr registry_pending
   \<and> map t_status (tasks (update_task_status ''t1'' ''done'' (Some ''T'') (Some ''/srv/out/t1'')
                             None 101 registry_pending)) = [''done'']
   \<and> map t_status (tasks (update_task_status ''t1'' ''processing'' None None None 102
                            (update_task_status ''t1'' ''done'' (Some ''T'') (Some ''/srv/out/t1'')
                               None 101 registry_pending))) = [''processing'']"
  by code_simp

text \<open>
  C6, as stated, fails for the same reason: after \<^verbatim>\<open>done\<close> and then \<^verbatim>\<open>processing\<close> the row
  is not finished but keeps its completion time and output path; and an \<^verbatim>\<open>error\<close> update
  that is given a title and an output path stores them.
\<close>

theorem update_task_status_fields_counterexample:
  "map (\<lambda>t. (t_status t, t_completed_at t, t_output_path t))
     (tasks (update_task_status ''t1'' ''processing'' None None None 102
               (update_task_status ''t1'' ''done'' (Some ''T'') (Some ''/srv/out/t1'')
                  None 101 registry_pending)))
     = [(''processing'', Some 101, Some ''/srv/out/t1'')]
   \<and> map (\<lambda>t. (t_status t, t_title t, t_output_path t))
       (tasks (update_task_status ''t1'' ''error'' (Some ''T'') (Some ''/srv/out/t1'')
                 (Some ''failed'') 101 registry_pending))
     = [(''error'', Some ''T'', Some ''/srv/out/t1'')]"
  by code_simp

text \<open>
  C5, amended: in the runs of the service (submissions, background conversions, pruning,
  from an empty registry) a step leaves the status of a task as it is or moves it from
  \<^verbatim>\<open>pending\<close> to \<^verbatim>\<open>processing\<close> or from \<^verbatim>\<open>processing\<close> to \<^verbatim>\<open>done\<close> or \<^verbatim>\<open>error\<close>; a task
  that appears is \<^verbatim>\<open>pending\<close>; and a task that is \<^verbatim>\<open>done\<close> or \<^verbatim>\<open>error\<close> has that status
  for as long as its row exists.
\<close>

theorem status_moves_forward:
  assumes "reachable e root s"
  shows "(step e root s s' \<and> get_task task_id (reg s') = Some t' \<longrightarrow>
            (case get_task task_id (reg s) of
               None \<Rightarrow> t_status t' = ''pending''
             | Some t \<Rightarrow> t_status t' = t_status t \<or> allowed_move (t_status t) (t_status t')))
       \<and> (run e root s s'' \<and> get_task task_id (reg s) = Some t \<and> terminal (t_status t)
            \<and> get_task task_id (reg s'') = Some t'' \<longrightarrow> t_status t'' = t_status t)"
proof (intro conjI impI)
  from assms have inv: "sys_inv s"
    by (rule reachable_inv)
  assume a: "step e root s s' \<and> get_task task_id (reg s') = Some t'"
  with inv have inv': "sys_inv s'" and tf: "tasks_follow s s'"
    using step_keeps_inv by blast+
  from a inv' have t': "t' \<in> set (tasks (reg s'))" "t_id t' = task_id"
    by (simp_all add: get_task_iff)
  with tf consider
      t where "t \<in> set (tasks (reg s))" "t_id t = task_id"
        "t_status t' = t_status t \<or> allowed_move (t_status t) (t_status t')"
    | "task_id \<notin> j_task_id ` set (jobs s)" "t_status t' = ''pending''"
    by (auto simp: tasks_follow_def)
  then show "case get_task task_id (reg s) of
               None \<Rightarrow> t_status t' = ''pending''
             | Some t \<Rightarrow> t_status t' = t_status t \<or> allowed_move (t_status t) (t_status t')"
  proof cases
    case 1
    with inv have "get_task task_id (reg s) = Some t"
      by (simp add: get_task_iff)
    with 1 show ?thesis
      by simp
  next
    case 2
    have "get_task task_id (reg s) = None"
    proof (rule ccontr)
      assume "get_task task_id (reg s) \<noteq> None"
      then obtain t where "get_task task_id (reg s) = Some t"
        by blast
      with inv have "task_id \<in> j_task_id ` set (jobs s)"
        by (rule sys_inv_task_has_job)
      with 2 show False
        by simp
    qed
    with 2 show ?thesis
      by simp
  qed
next
  from assms have inv: "sys_inv s"
    by (rule reachable_inv)
  assume a: "run e root s s'' \<and> get_task task_id (reg s) = Some t \<and> terminal (t_status t)
            \<and> get_task task_id (reg s'') = Some t''"
  then have r: "run e root s s''" and t: "get_task task_id (reg s) = Some t"
    and fin: "terminal (t_status t)" and t'': "get_task task_id (reg s'') = Some t''"
    by simp_all
  from inv t have "task_id \<in> j_task_id ` set (jobs s)"
    by (rule sys_inv_task_has_job)
  with r inv t have "sys_inv s'' \<and> task_id \<in> j_task_id ` set (jobs s'')
      \<and> (\<forall>u. get_task task_id (reg s'') = Some u \<longrightarrow> t_status u = t_status t)"
  proof (induction rule: run.induct)
    case (stay s)
    then show ?case
      by simp
  next
    case (next_step s s1 s2)
    then have inv1: "sys_inv s1" and in1: "task_id \<in> j_task_id ` set (jobs s1)"
      and st1: "\<forall>u. get_task task_id (reg s1) = Some u \<longrightarrow> t_status u = t_status t"
      by simp_all
    from step_keeps_inv [OF inv1 next_step.hyps(2)]
    have inv2: "sys_inv s2" and tf: "tasks_follow s1 s2"
      by simp_all
    from tf in1 have in2: "task_id \<in> j_task_id ` set (jobs s2)"
      by (auto simp: tasks_follow_def)
    have "t_status u = t_status t" if "get_task task_id (reg s2) = Some u" for u
    proof -
      from that inv2 have u: "u \<in> set (tasks (reg s2))" "t_id u = task_id"
        by (simp_all add: get_task_iff)
      with tf in1 obtain v where v: "v \<in> set (tasks (reg s1))" "t_id v = task_id"
        "t_status u = t_status v \<or> allowed_move (t_status v) (t_status u)"
        by (auto simp: tasks_follow_def)
      with inv1 have "get_task task_id (reg s1) = Some v"
        by (simp add: get_task_iff)
      with st1 have "t_status v = t_status t"
        by simp
      with v(3) fin show ?thesis
        by (auto dest: allowed_move_not_terminal)
    qed
    with inv2 in2 show ?case
      by simp
  qed
  with t'' show "t_status t'' = t_status t"
    by simp
qed

text \<open>
  C6, amended: in the runs of the service every task row has one of the four status
  values, has a completion time exactly when its status is \<^verbatim>\<open>done\<close> or \<^verbatim>\<open>error\<close>, and has
  a title or an output path only when its status is \<^verbatim>\<open>done\<close>.
\<close>

theorem task_fields_follow_status:
  assumes "reachable e root s" and "get_task task_id (reg s) = Some t"
  shows "t_status t \<in> {''pending'', ''processing'', ''done'', ''error''}
       \<and> (t_completed_at t \<noteq> None \<longleftrightarrow> t_status t = ''done'' \<or> t_status t = ''error'')
       \<and> (t_title t \<noteq> None \<or> t_output_path t \<noteq> None \<longrightarrow> t_status t = ''done'')"
proof -
  from assms(1) have inv: "sys_inv s"
    by (rule reachable_inv)
  with assms(2) have "t \<in> set (tasks (reg s))"
    by (simp add: get_task_iff)
  from sys_inv_owner [OF inv this] obtain j :: job where "consistent (j_phase j) t"
    by blast
  then show ?thesis
    by (cases "j_phase j") (auto simp: unfinished_row_def done_row_def error_row_def)
qed

lemma length_jobs_advance: "length (jobs (advance_job e root i s)) = length (jobs s)"
proof (cases "i < length (jobs s)")
  case True
  from advance_job_effect [OF True] obtain ph upd where
    "job_effect s (advance_job e root i s) i ph upd"
    by blast
  then show ?thesis
    by (simp add: job_effect_def length_set_phase)
next
  case False
  then show ?thesis
    by (simp add: advance_job_def)
qed

lemma reachable_advance:
  assumes "reachable e root s" "i < length (jobs s)"
  shows "reachable e root (advance_job e root i s)"
  using assms by (blast intro: reachable.later step.advance)

lemma reachable_process_conversion:
  assumes "reachable e root s" "i < length (jobs s)"
  shows "reachable e root (process_conversion e root i s)"
  unfolding process_conversion_def
  using assms by (intro reachable_advance) (simp_all add: length_jobs_advance)

lemma reachable_submit:
  assumes "reachable e root s" "uuid \<notin> j_task_id ` set (jobs s)"
  shows "reachable e root (snd (convert_pdf e root uuid filename b s))"
    and "step e root s (snd (convert_pdf e root uuid filename b s))"
proof -
  have "convert_pdf e root uuid filename b s
          = (fst (convert_pdf e root uuid filename b s), snd (convert_pdf e root uuid filename b s))"
    by simp
  with assms(2) show "step e root s (snd (convert_pdf e root uuid filename b s))"
    by (rule step.submit)
  with assms(1) show "reachable e root (snd (convert_pdf e root uuid filename b s))"
    by (rule reachable.later)
qed

text \<open>The service after the first document has been submitted and converted.\<close>

definition after_first_conversion :: sys where
  "after_first_conversion =
     process_conversion example_env storage_root 0
       (snd (convert_pdf example_env storage_root ''t1'' (Some ''a.pdf'') ''%PDF-A''
          (init_sys empty_volume 100)))"

lemma reachable_after_first_conversion:
  "reachable example_env storage_root after_first_conversion"
  unfolding after_first_conversion_def
proof (rule reachable_process_conversion)
  show "reachable example_env storage_root
          (snd (convert_pdf example_env storage_root ''t1'' (Some ''a.pdf'') ''%PDF-A''
             (init_sys empty_volume 100)))"
  proof (rule reachable_submit)
    show "reachable example_env storage_root (init_sys empty_volume 100)"
      by (rule reachable.start)
    show "''t1'' \<notin> j_task_id ` set (jobs (init_sys empty_volume 100))"
      by (simp add: init_sys_def)
  qed
  show "0 < length (jobs (snd (convert_pdf example_env storage_root ''t1'' (Some ''a.pdf'')
                                 ''%PDF-A'' (init_sys empty_volume 100))))"
    by code_simp
qed

theorem status_moves_forward_witness:
  "reachable example_env storage_root after_first_conversion
   \<and> step example_env storage_root after_first_conversion
        (snd (convert_pdf example_env storage_root ''t2'' (Some ''b.pdf'') ''%PDF-B''
           after_first_conversion))
   \<and> map (\<lambda>t. (t_id t, t_status t)) (tasks (reg after_first_conversion)) = [(''t1'', ''done'')]
   \<and> map t_id (tasks (reg (snd (convert_pdf example_env storage_root ''t2'' (Some ''b.pdf'')
        ''%PDF-B'' after_first_conversion)))) = [''t1'', ''t2'']
   \<and> t_status (the (get_task ''t1'' (reg (snd (convert_pdf example_env storage_root ''t2''
        (Some ''b.pdf'') ''%PDF-B'' after_first_conversion))))) = ''done''
   \<and> t_status (the (get_task ''t2'' (reg (snd (convert_pdf example_env storage_root ''t2''
        (Some ''b.pdf'') ''%PDF-B'' after_first_conversion))))) = ''pending''"
proof -
  define s where "s = after_first_conversion"
  define s' where "s' = snd (convert_pdf example_env storage_root ''t2'' (Some ''b.pdf'') ''%PDF-B'' s)"
  have r: "reachable example_env storage_root s"
    unfolding s_def by (rule reachable_after_first_conversion)
  have ids: "map (\<lambda>t. (t_id t, t_status t)) (tasks (reg s)) = [(''t1'', ''done'')]"
    and ids': "map t_id (tasks (reg s')) = [''t1'', ''t2'']"
    and fresh: "''t2'' \<notin> j_task_id ` set (jobs s)"
    unfolding s_def s'_def after_first_conversion_def by code_simp+
  have st: "step example_env storage_root s s'"
    unfolding s'_def using r fresh by (rule reachable_submit)
  then have rn: "run example_env storage_root s s'"
    by (rule run.next_step [OF run.stay])
  obtain t where t: "get_task ''t1'' (reg s) = Some t" and "t_status t = ''done''"
    using ids by (cases "tasks (reg s)") (auto simp: get_task_def)
  then have fin: "terminal (t_status t)"
    by (simp add: terminal_def)
  obtain t1 t2 where t1: "get_task ''t1'' (reg s') = Some t1" and t2: "get_task ''t2'' (reg s') = Some t2"
    using ids' by (auto simp: get_task_def map_eq_Cons_conv)
  have none: "get_task ''t2'' (reg s) = None"
    using ids by (auto simp: get_task_def map_eq_Cons_conv)
  from status_moves_forward [OF r, of s' "''t1''" t1 s' t] rn t fin t1
  have "t_status t1 = t_status t"
    by blast
  moreover from status_moves_forward [OF r, of s' "''t2''" t2 s' t] st t2 none
  have "t_status t2 = ''pending''"
    by simp
  ultimately show ?thesis
    using r st ids ids' t1 t2 \<open>t_status t = ''done''\<close>
    unfolding s_def [symmetric] s'_def [symmetric] by simp
qed

theorem task_fields_follow_status_witness:
  "reachable example_env storage_root after_first_conversion
   \<and> get_task ''t1'' (reg after_first_conversion)
       = Some \<lparr>t_id = ''t1'', t_status = ''done'', t_format = ''markdown'',
               t_title = Some ''document'', t_output_path = Some ''/srv/out/t1'',
               t_error_message = None, t_created_at = 100, t_completed_at = Some 100\<rparr>
   \<and> (t_completed_at (the (get_task ''t1'' (reg after_first_conversion))) \<noteq> None
        \<longleftrightarrow> t_status (the (get_task ''t1'' (reg after_first_conversion))) = ''done''
            \<or> t_status (the (get_task ''t1'' (reg after_first_conversion))) = ''error'')"
proof -
  have r: "reachable example_env storage_root after_first_conversion"
    by (rule reachable_after_first_conversion)
  have g: "get_task ''t1'' (reg after_first_conversion)
       = Some \<lparr>t_id = ''t1'', t_status = ''done'', t_format = ''markdown'',
               t_title = Some ''document'', t_output_path = Some ''/srv/out/t1'',
               t_error_message = None, t_created_at = 100, t_completed_at = Some 100\<rparr>"
    unfolding after_first_conversion_def by code_simp
  from task_fields_follow_status [OF r g] r g show ?thesis
    by simp
qed


end
